theory Spec2Isabelle
  imports Main "HOL-Library.Word"
begin

section \<open>The max-age channel filter (src/core/lib/channel/max_age_filter.c)\<close>

text \<open>
  The filter keeps one \<open>channel_data\<close> per channel. Its functions are embedded as pure
  functions that take the channel data (and the callback's error argument) and return the
  updated channel data together with the list of calls they make into the rest of the
  library, in program order. The library itself (execution context, timers, transport,
  reference counts, clock) is not part of the sources; a call into it is an \<open>event\<close>.
\<close>

subsection \<open>Time values\<close>

text \<open>
  Modelled from the spec: \<open>gpr_timespec\<close> and its helpers \<open>gpr_inf_future\<close>,
  \<open>gpr_time_from_seconds\<close>, \<open>gpr_time_cmp\<close> and \<open>gpr_time_add\<close> are declared outside
  the sources. The spec's data model is \<open>Duration | Infinite\<close>: a time is either a count of
  seconds and nanoseconds or the infinite future, which compares above every finite time
  and absorbs addition.
\<close>

datatype gpr_timespec = Gpr_time int int | Gpr_inf_future

definition gpr_inf_future :: gpr_timespec where
  "gpr_inf_future = Gpr_inf_future"

definition gpr_time_from_seconds :: "int \<Rightarrow> gpr_timespec" where
  "gpr_time_from_seconds s = Gpr_time s 0"

fun gpr_time_cmp :: "gpr_timespec \<Rightarrow> gpr_timespec \<Rightarrow> int" where
  "gpr_time_cmp (Gpr_time s1 n1) (Gpr_time s2 n2) =
     (if s1 < s2 then - 1 else if s2 < s1 then 1
      else if n1 < n2 then - 1 else if n2 < n1 then 1 else 0)"
| "gpr_time_cmp (Gpr_time s1 n1) Gpr_inf_future = - 1"
| "gpr_time_cmp Gpr_inf_future (Gpr_time s2 n2) = 1"
| "gpr_time_cmp Gpr_inf_future Gpr_inf_future = 0"

fun gpr_time_add :: "gpr_timespec \<Rightarrow> gpr_timespec \<Rightarrow> gpr_timespec" where
  "gpr_time_add (Gpr_time s1 n1) (Gpr_time s2 n2) =
     (if 1000000000 \<le> n1 + n2 then Gpr_time (s1 + s2 + 1) (n1 + n2 - 1000000000)
      else Gpr_time (s1 + s2) (n1 + n2))"
| "gpr_time_add (Gpr_time s1 n1) Gpr_inf_future = Gpr_inf_future"
| "gpr_time_add Gpr_inf_future b = Gpr_inf_future"

subsection \<open>Errors\<close>

text \<open>
  \<open>grpc_error*\<close> is compared by pointer against the statically allocated errors; every
  other error is an allocated object with a description and integer attributes.
\<close>

datatype grpc_error_ints = GRPC_ERROR_INT_HTTP2_ERROR | GRPC_ERROR_INT_GRPC_STATUS

record grpc_error_obj =
  description :: string
  ints :: "(grpc_error_ints \<times> int) list"

datatype grpc_error =
    GRPC_ERROR_NONE
  | GRPC_ERROR_OOM
  | GRPC_ERROR_CANCELLED
  | GRPC_ERROR_OBJ grpc_error_obj

text \<open>
  Modelled from the spec: the error constructors and \<open>GRPC_HTTP2_NO_ERROR\<close> come from
  headers outside the sources. \<open>GRPC_ERROR_CREATE_FROM_STATIC_STRING\<close> allocates an error
  with the given description, \<open>grpc_error_set_int\<close> sets one integer attribute of an
  allocated error, and the "no-error" shutdown code is the HTTP/2 code 0.
\<close>

definition GRPC_ERROR_CREATE_FROM_STATIC_STRING :: "string \<Rightarrow> grpc_error_obj" where
  "GRPC_ERROR_CREATE_FROM_STATIC_STRING desc = \<lparr>description = desc, ints = []\<rparr>"

definition grpc_error_set_int :: "grpc_error_obj \<Rightarrow> grpc_error_ints \<Rightarrow> int \<Rightarrow> grpc_error_obj" where
  "grpc_error_set_int e which v =
     e\<lparr>ints := (which, v) # filter (\<lambda>kv. fst kv \<noteq> which) (ints e)\<rparr>"

definition GRPC_HTTP2_NO_ERROR :: int where
  "GRPC_HTTP2_NO_ERROR = 0"

subsection \<open>Closures, timers, transport operations and events\<close>

text \<open>
  The four closures of \<open>channel_data\<close> are bound once, by \<open>grpc_closure_init\<close>, each to
  the callback of the same name; a closure is identified by that name.
\<close>

datatype closure_id =
    Close_max_age_channel
  | Force_close_max_age_channel
  | Start_max_age_timer_after_init
  | Start_max_age_grace_timer_after_goaway_op

datatype timer_id = Max_age_timer | Max_age_grace_timer

text \<open>
  \<open>grpc_make_transport_op on_consumed\<close> returns an operation whose fields are all
  empty except the closure to run once the operation has been consumed.
\<close>

record grpc_transport_op =
  on_consumed :: "closure_id option"
  goaway_error :: grpc_error
  disconnect_with_error :: grpc_error

definition grpc_make_transport_op :: "closure_id option \<Rightarrow> grpc_transport_op" where
  "grpc_make_transport_op c =
     \<lparr>on_consumed = c, goaway_error = GRPC_ERROR_NONE, disconnect_with_error = GRPC_ERROR_NONE\<rparr>"

text \<open>
  Calls into the library and stores to the two mutex-guarded flags. The last three
  constructors are not emitted by the filter: they mark, in the trace of an execution, that
  a timer delivered its status, that the library invoked a closure, or that it invoked the
  channel destructor.
\<close>

datatype event =
    Gpr_mu_init
  | Gpr_mu_lock
  | Gpr_mu_unlock
  | Store_pending timer_id bool
  | Grpc_closure_init closure_id
  | Grpc_closure_sched closure_id grpc_error
  | Grpc_timer_init timer_id gpr_timespec closure_id gpr_timespec
  | Grpc_timer_cancel timer_id
  | Channel_stack_ref string
  | Channel_stack_unref string
  | Start_transport_op nat grpc_transport_op
  | Gpr_log string grpc_error
  | Timer_fired timer_id grpc_error
  | Closure_run closure_id grpc_error
  | Destroy_run

text \<open>
  Modelled from the spec: the macro \<open>GRPC_LOG_IF_ERROR\<close> is defined outside the sources;
  it logs its error argument when that is an error.
\<close>

definition GRPC_LOG_IF_ERROR :: "string \<Rightarrow> grpc_error \<Rightarrow> event list" where
  "GRPC_LOG_IF_ERROR what error = (if error = GRPC_ERROR_NONE then [] else [Gpr_log what error])"

subsection \<open>Channel arguments\<close>

text \<open>A C \<open>int\<close> is a 32-bit word read in two's complement (\<open>sint\<close>).\<close>

type_synonym c_int = "32 word"

definition INT_MAX :: c_int where
  "INT_MAX = 2147483647"

definition DEFAULT_MAX_CONNECTION_AGE_S :: c_int where
  "DEFAULT_MAX_CONNECTION_AGE_S = INT_MAX"

definition DEFAULT_MAX_CONNECTION_AGE_GRACE_S :: c_int where
  "DEFAULT_MAX_CONNECTION_AGE_GRACE_S = INT_MAX"

text \<open>
  Modelled from the spec: the argument keys and \<open>grpc_arg\<close> are declared outside the
  sources. The configuration surface is two integer-seconds values under the keys
  \<open>max-connection-age-seconds\<close> and \<open>max-connection-age-grace-seconds\<close>.
\<close>

definition GPRC_ARG_MAX_CONNECION_AGE_S :: string where
  "GPRC_ARG_MAX_CONNECION_AGE_S = ''max-connection-age-seconds''"

definition GPRC_ARG_MAX_CONNECION_AGE_GRACE_S :: string where
  "GPRC_ARG_MAX_CONNECION_AGE_GRACE_S = ''max-connection-age-grace-seconds''"

record grpc_arg =
  key :: string
  integer :: c_int

record grpc_integer_options =
  default_value :: c_int
  min_value :: c_int
  max_value :: c_int

text \<open>
  Modelled from the spec: \<open>grpc_channel_arg_get_integer\<close> is defined outside the
  sources. The spec says of the two integer values that "values below 1 second are
  rejected/clamped to 1" and that an out-of-range configuration is "clamped, not fatal":
  a value outside \<open>[min_value, max_value]\<close> is replaced by the bound it crosses.
\<close>

definition grpc_channel_arg_get_integer :: "grpc_arg \<Rightarrow> grpc_integer_options \<Rightarrow> c_int" where
  "grpc_channel_arg_get_integer arg options =
     (if sint (integer arg) < sint (min_value options) then min_value options
      else if sint (max_value options) < sint (integer arg) then max_value options
      else integer arg)"

subsection \<open>Channel data and its constructor\<close>

text \<open>
  The fields of \<open>channel_data\<close> that the functions read or write after construction. The
  mutex and the two timer handles belong to the library and appear in events only.
\<close>

record channel_data =
  max_age_timer_pending :: bool
  max_age_grace_timer_pending :: bool
  max_connection_age :: gpr_timespec
  max_connection_age_grace :: gpr_timespec

text \<open>One iteration of the loop over \<open>args->channel_args\<close> in \<open>init_channel_elem\<close>.\<close>

definition channel_arg_step :: "channel_data \<Rightarrow> grpc_arg \<Rightarrow> channel_data" where
  "channel_arg_step chand arg =
     (if key arg = GPRC_ARG_MAX_CONNECION_AGE_S then
        (let v = grpc_channel_arg_get_integer arg
                   \<lparr>default_value = DEFAULT_MAX_CONNECTION_AGE_S, min_value = 1, max_value = INT_MAX\<rparr>
         in chand\<lparr>max_connection_age :=
                    (if v = INT_MAX then gpr_inf_future else gpr_time_from_seconds (sint v))\<rparr>)
      else if key arg = GPRC_ARG_MAX_CONNECION_AGE_GRACE_S then
        (let v = grpc_channel_arg_get_integer arg
                   \<lparr>default_value = DEFAULT_MAX_CONNECTION_AGE_GRACE_S, min_value = 1,
                    max_value = INT_MAX\<rparr>
         in chand\<lparr>max_connection_age_grace :=
                    (if v = INT_MAX then gpr_inf_future else gpr_time_from_seconds (sint v))\<rparr>)
      else chand)"

text \<open>
  The two default assignments of the constructor, as written: both store into
  \<open>max_connection_age\<close>.
\<close>

definition assign_defaults :: "channel_data \<Rightarrow> channel_data" where
  "assign_defaults chand =
     (let chand1 = chand\<lparr>max_connection_age :=
            (if DEFAULT_MAX_CONNECTION_AGE_S = INT_MAX then gpr_inf_future
             else gpr_time_from_seconds (sint DEFAULT_MAX_CONNECTION_AGE_S))\<rparr>
      in chand1\<lparr>max_connection_age :=
            (if DEFAULT_MAX_CONNECTION_AGE_GRACE_S = INT_MAX then gpr_inf_future
             else gpr_time_from_seconds (sint DEFAULT_MAX_CONNECTION_AGE_GRACE_S))\<rparr>)"

text \<open>
  \<open>init_channel_elem\<close>. The first argument is the content of the \<open>channel_data\<close> memory
  when the constructor is entered: the constructor assigns fields one by one and a field it
  does not assign keeps that content. The result is the returned error, the channel data
  and the calls made.
\<close>

definition init_channel_elem ::
  "channel_data \<Rightarrow> grpc_arg list \<Rightarrow> grpc_error \<times> channel_data \<times> event list" where
  "init_channel_elem chand0 args =
     (let chand = chand0\<lparr>max_age_timer_pending := False\<rparr>;
          chand = chand\<lparr>max_age_grace_timer_pending := False\<rparr>;
          chand = assign_defaults chand;
          chand = foldl channel_arg_step chand args;
          evs = [Gpr_mu_init,
                 Store_pending Max_age_timer False,
                 Store_pending Max_age_grace_timer False,
                 Grpc_closure_init Close_max_age_channel,
                 Grpc_closure_init Force_close_max_age_channel,
                 Grpc_closure_init Start_max_age_timer_after_init,
                 Grpc_closure_init Start_max_age_grace_timer_after_goaway_op]
      in if gpr_time_cmp (max_connection_age chand) gpr_inf_future \<noteq> 0 then
           (GRPC_ERROR_NONE, chand,
            evs @ [Channel_stack_ref ''max_age start_max_age_timer_after_init'',
                   Grpc_closure_sched Start_max_age_timer_after_init GRPC_ERROR_NONE])
         else (GRPC_ERROR_NONE, chand, evs))"

subsection \<open>The callbacks\<close>

text \<open>
  The two callbacks that arm a timer read the monotonic clock twice, once for the deadline
  and once for the \<open>now\<close> argument of \<open>grpc_timer_init\<close>; the two readings are the
  arguments \<open>now_deadline\<close> and \<open>now_arg\<close>. Their error argument is not used.
\<close>

definition start_max_age_timer_after_init ::
  "gpr_timespec \<Rightarrow> gpr_timespec \<Rightarrow> channel_data \<Rightarrow> grpc_error \<Rightarrow> channel_data \<times> event list" where
  "start_max_age_timer_after_init now_deadline now_arg chand error =
     (chand\<lparr>max_age_timer_pending := True\<rparr>,
      [Gpr_mu_lock,
       Store_pending Max_age_timer True,
       Grpc_timer_init Max_age_timer (gpr_time_add now_deadline (max_connection_age chand))
         Close_max_age_channel now_arg,
       Gpr_mu_unlock,
       Channel_stack_unref ''max_age start_max_age_timer_after_init''])"

definition start_max_age_grace_timer_after_goaway_op ::
  "gpr_timespec \<Rightarrow> gpr_timespec \<Rightarrow> channel_data \<Rightarrow> grpc_error \<Rightarrow> channel_data \<times> event list" where
  "start_max_age_grace_timer_after_goaway_op now_deadline now_arg chand error =
     (chand\<lparr>max_age_grace_timer_pending := True\<rparr>,
      [Gpr_mu_lock,
       Store_pending Max_age_grace_timer True,
       Grpc_timer_init Max_age_grace_timer
         (gpr_time_add now_deadline (max_connection_age_grace chand))
         Force_close_max_age_channel now_arg,
       Gpr_mu_unlock,
       Channel_stack_unref ''max_age start_max_age_grace_timer_after_goaway_op''])"

definition close_max_age_channel :: "channel_data \<Rightarrow> grpc_error \<Rightarrow> channel_data \<times> event list" where
  "close_max_age_channel chand error =
     (let chand' = chand\<lparr>max_age_timer_pending := False\<rparr>;
          evs = [Gpr_mu_lock, Store_pending Max_age_timer False, Gpr_mu_unlock]
      in if error = GRPC_ERROR_NONE then
           (let op = grpc_make_transport_op (Some Start_max_age_grace_timer_after_goaway_op);
                op = op\<lparr>goaway_error :=
                       GRPC_ERROR_OBJ
                         (grpc_error_set_int (GRPC_ERROR_CREATE_FROM_STATIC_STRING ''max_age'')
                            GRPC_ERROR_INT_HTTP2_ERROR GRPC_HTTP2_NO_ERROR)\<rparr>
            in (chand',
                evs @ [Channel_stack_ref ''max_age start_max_age_grace_timer_after_goaway_op'',
                       Start_transport_op 0 op]))
         else if error \<noteq> GRPC_ERROR_CANCELLED then
           (chand', evs @ GRPC_LOG_IF_ERROR ''close_max_age_channel'' error)
         else (chand', evs))"

definition force_close_max_age_channel ::
  "channel_data \<Rightarrow> grpc_error \<Rightarrow> channel_data \<times> event list" where
  "force_close_max_age_channel chand error =
     (let chand' = chand\<lparr>max_age_grace_timer_pending := False\<rparr>;
          evs = [Gpr_mu_lock, Store_pending Max_age_grace_timer False, Gpr_mu_unlock]
      in if error = GRPC_ERROR_NONE then
           (let op = grpc_make_transport_op None;
                op = op\<lparr>disconnect_with_error :=
                       GRPC_ERROR_OBJ
                         (GRPC_ERROR_CREATE_FROM_STATIC_STRING ''Channel reaches max age'')\<rparr>
            in (chand', evs @ [Start_transport_op 0 op]))
         else if error \<noteq> GRPC_ERROR_CANCELLED then
           (chand', evs @ GRPC_LOG_IF_ERROR ''force_close_max_age_channel'' error)
         else (chand', evs))"

subsection \<open>Per-call hooks and the destructor\<close>

text \<open>
  The filter declares \<open>sizeof_call_data = 0\<close>: a call element has no data of its own, so
  the state a call hook could touch is the channel data.
\<close>

definition init_call_elem :: "channel_data \<Rightarrow> grpc_error \<times> channel_data \<times> event list" where
  "init_call_elem chand = (GRPC_ERROR_NONE, chand, [])"

definition destroy_call_elem :: "channel_data \<Rightarrow> channel_data \<times> event list" where
  "destroy_call_elem chand = (chand, [])"

definition destroy_channel_elem :: "channel_data \<Rightarrow> channel_data \<times> event list" where
  "destroy_channel_elem chand =
     (chand,
      [Gpr_mu_lock]
      @ (if max_age_timer_pending chand then [Grpc_timer_cancel Max_age_timer] else [])
      @ (if max_age_grace_timer_pending chand then [Grpc_timer_cancel Max_age_grace_timer] else [])
      @ [Gpr_mu_unlock])"

section \<open>Executions\<close>

text \<open>
  Modelled from the spec: the execution context, the timer subsystem and the transport
  that invoke the callbacks are outside the sources. The spec gives their interface:
  a scheduled closure runs once; \<open>arm(deadline, callback)\<close> makes the timer deliver one
  status out of \<open>Ok | Cancelled | OtherError\<close> to its callback; the continuation of a
  transport operation runs once the operation has been accepted; cancellation is advisory
  ("a timer already dequeued by the scheduler for firing may still invoke its callback with
  an Ok status concurrently with teardown"). In this first model a callback runs to completion
  in one move of the library; the interleaved model further below runs callbacks event by
  event.
\<close>

record sys =
  cd :: channel_data
  trace :: "event list"
  exec_queue :: "(closure_id \<times> grpc_error) list"
  armed :: "(timer_id \<times> closure_id) list"
  in_flight :: "grpc_transport_op list"

text \<open>
  What the library does with a call made by the filter: a scheduled closure joins the queue
  of the execution context, an initialised timer is armed with its closure, a transport
  operation is in flight until it is consumed. A cancellation request changes nothing here:
  the timer stays armed until it delivers a status, and which status it delivers is the
  library's choice.
\<close>

fun deliver :: "event \<Rightarrow> sys \<Rightarrow> sys" where
  "deliver (Grpc_closure_sched c e) s = s\<lparr>exec_queue := exec_queue s @ [(c, e)]\<rparr>"
| "deliver (Grpc_timer_init t deadline c now) s = s\<lparr>armed := armed s @ [(t, c)]\<rparr>"
| "deliver (Start_transport_op i op) s = s\<lparr>in_flight := in_flight s @ [op]\<rparr>"
| "deliver e s = s"

definition commit :: "sys \<Rightarrow> channel_data \<times> event list \<Rightarrow> sys" where
  "commit s r = (fold deliver (snd r) s)\<lparr>cd := fst r, trace := trace s @ snd r\<rparr>"

definition run_closure ::
  "closure_id \<Rightarrow> gpr_timespec \<Rightarrow> gpr_timespec \<Rightarrow> channel_data \<Rightarrow> grpc_error
     \<Rightarrow> channel_data \<times> event list" where
  "run_closure c now_deadline now_arg chand error =
     (case c of
        Close_max_age_channel \<Rightarrow> close_max_age_channel chand error
      | Force_close_max_age_channel \<Rightarrow> force_close_max_age_channel chand error
      | Start_max_age_timer_after_init \<Rightarrow>
          start_max_age_timer_after_init now_deadline now_arg chand error
      | Start_max_age_grace_timer_after_goaway_op \<Rightarrow>
          start_max_age_grace_timer_after_goaway_op now_deadline now_arg chand error)"

text \<open>
  The moves of the library: run the first scheduled closure; deliver a status to the
  callback of an armed timer; consume an operation in flight and run its continuation;
  destroy the channel element; start or end a call. The two time arguments are the clock
  readings of the callback that runs.
\<close>

datatype action =
    Exec gpr_timespec gpr_timespec
  | Fire timer_id grpc_error gpr_timespec gpr_timespec
  | Consumed nat grpc_error gpr_timespec gpr_timespec
  | Teardown
  | Call_start
  | Call_end

definition invoke ::
  "closure_id \<Rightarrow> grpc_error \<Rightarrow> gpr_timespec \<Rightarrow> gpr_timespec \<Rightarrow> sys \<Rightarrow> sys" where
  "invoke c error now_deadline now_arg s =
     commit (s\<lparr>trace := trace s @ [Closure_run c error]\<rparr>)
       (run_closure c now_deadline now_arg (cd s) error)"

fun step :: "action \<Rightarrow> sys \<Rightarrow> sys option" where
  "step (Exec nd na) s =
     (case exec_queue s of
        [] \<Rightarrow> None
      | (c, e) # q \<Rightarrow> Some (invoke c e nd na (s\<lparr>exec_queue := q\<rparr>)))"
| "step (Fire t status nd na) s =
     (case map_of (armed s) t of
        None \<Rightarrow> None
      | Some c \<Rightarrow>
          Some (invoke c status nd na
                  (s\<lparr>armed := remove1 (t, c) (armed s),
                     trace := trace s @ [Timer_fired t status]\<rparr>)))"
| "step (Consumed i error nd na) s =
     (if i < length (in_flight s) then
        (let s1 = s\<lparr>in_flight := take i (in_flight s) @ drop (Suc i) (in_flight s)\<rparr>
         in case on_consumed (in_flight s ! i) of
              None \<Rightarrow> Some s1
            | Some c \<Rightarrow> Some (invoke c error nd na s1))
      else None)"
| "step Teardown s =
     Some (commit (s\<lparr>trace := trace s @ [Destroy_run]\<rparr>) (destroy_channel_elem (cd s)))"
| "step Call_start s = Some (commit s (snd (init_call_elem (cd s))))"
| "step Call_end s = Some (commit s (destroy_call_elem (cd s)))"

fun run :: "action list \<Rightarrow> sys \<Rightarrow> sys option" where
  "run [] s = Some s"
| "run (a # as) s = (case step a s of None \<Rightarrow> None | Some s' \<Rightarrow> run as s')"

text \<open>The state in which the library has just run the constructor.\<close>

definition boot :: "channel_data \<Rightarrow> grpc_arg list \<Rightarrow> sys" where
  "boot chand0 args =
     commit \<lparr>cd = chand0, trace = [], exec_queue = [], armed = [], in_flight = []\<rparr>
       (snd (init_channel_elem chand0 args))"

subsection \<open>Properties of traces\<close>

fun is_goaway :: "event \<Rightarrow> bool" where
  "is_goaway (Start_transport_op i op) = (goaway_error op \<noteq> GRPC_ERROR_NONE)"
| "is_goaway e = False"

fun is_disconnect :: "event \<Rightarrow> bool" where
  "is_disconnect (Start_transport_op i op) = (disconnect_with_error op \<noteq> GRPC_ERROR_NONE)"
| "is_disconnect e = False"

fun is_transport_op :: "event \<Rightarrow> bool" where
  "is_transport_op (Start_transport_op i op) = True"
| "is_transport_op e = False"

fun is_timer_init :: "event \<Rightarrow> bool" where
  "is_timer_init (Grpc_timer_init t deadline c now) = True"
| "is_timer_init e = False"

fun is_closure_sched :: "event \<Rightarrow> bool" where
  "is_closure_sched (Grpc_closure_sched c e) = True"
| "is_closure_sched e = False"

fun is_grace_timer_init :: "event \<Rightarrow> bool" where
  "is_grace_timer_init (Grpc_timer_init t deadline c now) = (t = Max_age_grace_timer)"
| "is_grace_timer_init e = False"

fun is_grace_fired_ok :: "event \<Rightarrow> bool" where
  "is_grace_fired_ok (Timer_fired t status) =
     (t = Max_age_grace_timer \<and> status = GRPC_ERROR_NONE)"
| "is_grace_fired_ok e = False"

text \<open>
  \<open>never_before P Q tr\<close>: every event of \<open>tr\<close> that satisfies \<open>Q\<close> has an event that
  satisfies \<open>P\<close> strictly before it.
\<close>

fun never_before :: "(event \<Rightarrow> bool) \<Rightarrow> (event \<Rightarrow> bool) \<Rightarrow> event list \<Rightarrow> bool" where
  "never_before P Q [] = True"
| "never_before P Q (e # es) =
     (if Q e then False else if P e then True else never_before P Q es)"

text \<open>The number of transport operations after the first run of the destructor.\<close>

definition ops_after_destroy :: "event list \<Rightarrow> nat" where
  "ops_after_destroy tr =
     length (filter is_transport_op (dropWhile (\<lambda>e. e \<noteq> Destroy_run) tr))"

subsection \<open>Phases of an execution\<close>

definition trace_ok :: "event list \<Rightarrow> bool" where
  "trace_ok tr \<longleftrightarrow>
     never_before is_goaway is_grace_timer_init tr
     \<and> length (filter is_disconnect tr) \<le> 1
     \<and> never_before is_grace_fired_ok is_disconnect tr
     \<and> never_before is_goaway is_disconnect tr"

text \<open>The two operations the callbacks build.\<close>

definition goaway_op :: grpc_transport_op where
  "goaway_op = \<lparr>on_consumed = Some Start_max_age_grace_timer_after_goaway_op,
     goaway_error = GRPC_ERROR_OBJ \<lparr>description = ''max_age'',
        ints = [(GRPC_ERROR_INT_HTTP2_ERROR, GRPC_HTTP2_NO_ERROR)]\<rparr>,
     disconnect_with_error = GRPC_ERROR_NONE\<rparr>"

definition disconnect_op :: grpc_transport_op where
  "disconnect_op = \<lparr>on_consumed = None, goaway_error = GRPC_ERROR_NONE,
     disconnect_with_error =
       GRPC_ERROR_OBJ \<lparr>description = ''Channel reaches max age'', ints = []\<rparr>\<rparr>"

text \<open>
  The states an execution passes through: the start closure is scheduled; the age timer is
  armed; the goaway operation is in flight; the grace timer is armed; nothing is pending.
\<close>

definition phase_scheduled :: "sys \<Rightarrow> bool" where
  "phase_scheduled s \<longleftrightarrow>
     exec_queue s = [(Start_max_age_timer_after_init, GRPC_ERROR_NONE)] \<and> armed s = []
     \<and> in_flight s = []
     \<and> filter is_transport_op (trace s) = [] \<and> filter is_grace_timer_init (trace s) = []"

definition phase_age_armed :: "sys \<Rightarrow> bool" where
  "phase_age_armed s \<longleftrightarrow>
     exec_queue s = [] \<and> armed s = [(Max_age_timer, Close_max_age_channel)]
     \<and> in_flight s = []
     \<and> filter is_transport_op (trace s) = [] \<and> filter is_grace_timer_init (trace s) = []"

definition phase_goaway_sent :: "sys \<Rightarrow> bool" where
  "phase_goaway_sent s \<longleftrightarrow>
     exec_queue s = [] \<and> armed s = [] \<and> in_flight s = [goaway_op]
     \<and> filter is_goaway (trace s) \<noteq> []
     \<and> filter is_disconnect (trace s) = [] \<and> filter is_grace_timer_init (trace s) = []"

definition phase_grace_armed :: "sys \<Rightarrow> bool" where
  "phase_grace_armed s \<longleftrightarrow>
     exec_queue s = [] \<and> armed s = [(Max_age_grace_timer, Force_close_max_age_channel)]
     \<and> in_flight s = []
     \<and> filter is_goaway (trace s) \<noteq> []
     \<and> filter is_disconnect (trace s) = []
     \<and> never_before is_goaway is_grace_timer_init (trace s)"

definition phase_idle :: "sys \<Rightarrow> bool" where
  "phase_idle s \<longleftrightarrow>
     exec_queue s = [] \<and> armed s = []
     \<and> filter (\<lambda>op. on_consumed op \<noteq> None) (in_flight s) = []
     \<and> trace_ok (trace s)"

definition governed :: "sys \<Rightarrow> bool" where
  "governed s \<longleftrightarrow>
     phase_scheduled s \<or> phase_age_armed s \<or> phase_goaway_sent s \<or> phase_grace_armed s
     \<or> phase_idle s"

text \<open>Nothing pending and nothing armed or dispatched so far.\<close>

definition inert :: "sys \<Rightarrow> bool" where
  "inert s \<longleftrightarrow>
     exec_queue s = [] \<and> armed s = [] \<and> in_flight s = []
     \<and> filter is_timer_init (trace s) = [] \<and> filter is_transport_op (trace s) = []"

section \<open>Interleaved executions\<close>

text \<open>
  Modelled from the spec: section 5 lets several worker threads run timer callbacks and
  continuations concurrently, with the two flags mutated only under the mutex and
  operations dispatched after the mutex is released. Here a callback that has been invoked
  is a thread: the list of events it still has to emit. Threads emit one event at a time in
  any order; a thread whose next event is \<open>Gpr_mu_lock\<close> waits while the mutex is held;
  a store to a flag takes effect when its event is emitted.
\<close>

record isys =
  core :: sys
  threads :: "event list list"
  mu_locked :: bool
  waiting :: nat

text \<open>The effect on the channel data of a store event.\<close>

fun store :: "event \<Rightarrow> channel_data \<Rightarrow> channel_data" where
  "store (Store_pending Max_age_timer b) chand = chand\<lparr>max_age_timer_pending := b\<rparr>"
| "store (Store_pending Max_age_grace_timer b) chand = chand\<lparr>max_age_grace_timer_pending := b\<rparr>"
| "store e chand = chand"

text \<open>A thread emits one event.\<close>

definition emit :: "event \<Rightarrow> isys \<Rightarrow> isys" where
  "emit e s =
     s\<lparr>core := (deliver e (core s))\<lparr>cd := store e (cd (core s)), trace := trace (core s) @ [e]\<rparr>,
       mu_locked := (if e = Gpr_mu_lock then True
                     else if e = Gpr_mu_unlock then False else mu_locked s)\<rparr>"

text \<open>
  The library invokes a closure: its events become a new thread. The events are those of
  the callback on the current channel data; the only fields a callback reads are the two
  durations, which no callback writes.
\<close>

definition spawn ::
  "closure_id \<Rightarrow> grpc_error \<Rightarrow> gpr_timespec \<Rightarrow> gpr_timespec \<Rightarrow> isys \<Rightarrow> isys" where
  "spawn c error now_deadline now_arg s =
     s\<lparr>core := (core s)\<lparr>trace := trace (core s) @ [Closure_run c error]\<rparr>,
       threads := threads s @ [snd (run_closure c now_deadline now_arg (cd (core s)) error)]\<rparr>"

text \<open>
  The moves: as before, with a callback started rather than run, and \<open>IAdvance k\<close>, the
  thread \<open>k\<close> emitting its next event. \<open>ITeardown\<close> is the library invoking the
  destructor, which then waits for the mutex (\<open>waiting\<close> counts such destructors);
  \<open>IEnter\<close> is a waiting destructor taking the mutex: it emits the lock, decides from
  the flags as they are then what it will cancel, and leaves the cancellation requests and
  the unlock to its thread.
\<close>

datatype iaction =
    IExec gpr_timespec gpr_timespec
  | IFire timer_id grpc_error gpr_timespec gpr_timespec
  | IConsumed nat grpc_error gpr_timespec gpr_timespec
  | ITeardown
  | IEnter
  | IAdvance nat
  | ICall_start
  | ICall_end

fun istep :: "iaction \<Rightarrow> isys \<Rightarrow> isys option" where
  "istep (IExec nd na) s =
     (case exec_queue (core s) of
        [] \<Rightarrow> None
      | (c, e) # q \<Rightarrow> Some (spawn c e nd na (s\<lparr>core := (core s)\<lparr>exec_queue := q\<rparr>\<rparr>)))"
| "istep (IFire t status nd na) s =
     (case map_of (armed (core s)) t of
        None \<Rightarrow> None
      | Some c \<Rightarrow>
          Some (spawn c status nd na
                  (s\<lparr>core := (core s)\<lparr>armed := remove1 (t, c) (armed (core s)),
                                       trace := trace (core s) @ [Timer_fired t status]\<rparr>\<rparr>)))"
| "istep (IConsumed i error nd na) s =
     (if i < length (in_flight (core s)) then
        (let s1 = s\<lparr>core := (core s)\<lparr>in_flight :=
                      take i (in_flight (core s)) @ drop (Suc i) (in_flight (core s))\<rparr>\<rparr>
         in case on_consumed (in_flight (core s) ! i) of
              None \<Rightarrow> Some s1
            | Some c \<Rightarrow> Some (spawn c error nd na s1))
      else None)"
| "istep ITeardown s =
     Some (s\<lparr>core := (core s)\<lparr>trace := trace (core s) @ [Destroy_run]\<rparr>,
             waiting := Suc (waiting s)\<rparr>)"
| "istep IEnter s =
     (if waiting s = 0 \<or> mu_locked s then None
      else (case snd (destroy_channel_elem (cd (core s))) of
              [] \<Rightarrow> None
            | e # rest \<Rightarrow>
                Some ((emit e s)\<lparr>threads := threads s @ [rest], waiting := waiting s - 1\<rparr>)))"
| "istep (IAdvance k) s =
     (if k < length (threads s) then
        (case threads s ! k of
           [] \<Rightarrow> None
         | e # rest \<Rightarrow>
             if e = Gpr_mu_lock \<and> mu_locked s then None
             else Some ((emit e s)\<lparr>threads := (threads s)[k := rest]\<rparr>))
      else None)"
| "istep ICall_start s = Some (s\<lparr>core := commit (core s) (snd (init_call_elem (cd (core s))))\<rparr>)"
| "istep ICall_end s = Some (s\<lparr>core := commit (core s) (destroy_call_elem (cd (core s)))\<rparr>)"

fun irun :: "iaction list \<Rightarrow> isys \<Rightarrow> isys option" where
  "irun [] s = Some s"
| "irun (a # as) s = (case istep a s of None \<Rightarrow> None | Some s' \<Rightarrow> irun as s')"

definition iboot :: "channel_data \<Rightarrow> grpc_arg list \<Rightarrow> isys" where
  "iboot chand0 args =
     \<lparr>core = boot chand0 args, threads = [], mu_locked = False, waiting = 0\<rparr>"

text \<open>An event that dispatches, arms and schedules nothing.\<close>

definition silent_ev :: "event \<Rightarrow> bool" where
  "silent_ev e \<longleftrightarrow> \<not> is_transport_op e \<and> \<not> is_timer_init e \<and> \<not> is_closure_sched e"

text \<open>
  No callback of the filter is scheduled or awaited as the continuation of an operation in
  flight, and the callbacks that are running have nothing left to dispatch, arm or
  schedule.
\<close>

definition quiescent :: "isys \<Rightarrow> bool" where
  "quiescent s \<longleftrightarrow>
     filter (\<lambda>e. \<not> silent_ev e) (concat (threads s)) = [] \<and> exec_queue (core s) = []
     \<and> filter (\<lambda>op. on_consumed op \<noteq> None) (in_flight (core s)) = []"

text \<open>
  A timer whose flag is set in the channel data \<open>chand\<close>, so that a destructor that
  finds these channel data requests its cancellation, does not deliver the Ok status.
\<close>

fun honours_cancel :: "channel_data \<Rightarrow> iaction \<Rightarrow> bool" where
  "honours_cancel chand (IFire t status nd na) =
     (if Grpc_timer_cancel t \<in> set (snd (destroy_channel_elem chand))
      then status \<noteq> GRPC_ERROR_NONE else True)"
| "honours_cancel chand a = True"

subsection \<open>Invariants of interleaved executions\<close>

text \<open>What an event adds to the library's queues.\<close>

fun scheds :: "event \<Rightarrow> (closure_id \<times> grpc_error) list" where
  "scheds (Grpc_closure_sched c e) = [(c, e)]"
| "scheds e = []"

fun arms :: "event \<Rightarrow> (timer_id \<times> closure_id) list" where
  "arms (Grpc_timer_init t deadline c now) = [(t, c)]"
| "arms e = []"

fun sends :: "event \<Rightarrow> grpc_transport_op list" where
  "sends (Start_transport_op i op) = [op]"
| "sends e = []"

definition has_cont :: "grpc_transport_op \<Rightarrow> bool" where
  "has_cont op \<longleftrightarrow> on_consumed op \<noteq> None"

text \<open>
  Events as the callbacks emit them: nothing is scheduled, each timer is initialised with
  its own callback, and an operation's continuation, if any, starts the grace timer.
\<close>

fun wired_ev :: "event \<Rightarrow> bool" where
  "wired_ev (Grpc_closure_sched c e) = False"
| "wired_ev (Grpc_timer_init t deadline c now) =
     ((t, c) = (Max_age_timer, Close_max_age_channel)
      \<or> (t, c) = (Max_age_grace_timer, Force_close_max_age_channel))"
| "wired_ev (Start_transport_op i op) =
     (on_consumed op = None \<or> on_consumed op = Some Start_max_age_grace_timer_after_goaway_op)"
| "wired_ev e = True"

text \<open>
  Events that carry the execution forward (\<open>live_ev\<close>), and those that belong to the
  age timer's life (\<open>age_hold_ev\<close>); at most one of each kind is ever outstanding.
\<close>

fun live_ev :: "event \<Rightarrow> bool" where
  "live_ev (Grpc_timer_init t deadline c now) = True"
| "live_ev (Start_transport_op i op) = has_cont op"
| "live_ev (Store_pending t b) = (t = Max_age_grace_timer \<and> \<not> b)"
| "live_ev e = False"

fun age_hold_ev :: "event \<Rightarrow> bool" where
  "age_hold_ev (Grpc_timer_init t deadline c now) = (t = Max_age_timer)"
| "age_hold_ev (Store_pending t b) = (t = Max_age_timer \<and> \<not> b)"
| "age_hold_ev e = False"

text \<open>
  In a thread, a timer is initialised only after its flag has been set; a thread
  \<open>holder\<close>s a timer while it is between setting the flag and arming, or has still to
  clear the flag.
\<close>

fun is_init_of :: "timer_id \<Rightarrow> event \<Rightarrow> bool" where
  "is_init_of t (Grpc_timer_init t' deadline c now) = (t' = t)"
| "is_init_of t e = False"

fun set_before_init :: "timer_id \<Rightarrow> event list \<Rightarrow> bool" where
  "set_before_init t [] = True"
| "set_before_init t (e # p) =
     ((if is_init_of t e then Store_pending t True \<notin> set p else True) \<and> set_before_init t p)"

definition prog_ok :: "event list \<Rightarrow> bool" where
  "prog_ok p \<longleftrightarrow>
     filter (\<lambda>e. \<not> wired_ev e) p = []
     \<and> set_before_init Max_age_timer p \<and> set_before_init Max_age_grace_timer p"

definition holder :: "timer_id \<Rightarrow> event list \<Rightarrow> bool" where
  "holder t p \<longleftrightarrow>
     Store_pending t False \<in> set p
     \<or> (filter (is_init_of t) p \<noteq> [] \<and> Store_pending t True \<notin> set p)"

fun flag :: "timer_id \<Rightarrow> channel_data \<Rightarrow> bool" where
  "flag Max_age_timer chand = max_age_timer_pending chand"
| "flag Max_age_grace_timer chand = max_age_grace_timer_pending chand"

text \<open>The invariant \<open>fine\<close> of every interleaved execution and its four parts.\<close>

definition iwired :: "isys \<Rightarrow> bool" where
  "iwired s \<longleftrightarrow>
     set (exec_queue (core s)) \<subseteq> {(Start_max_age_timer_after_init, GRPC_ERROR_NONE)}
     \<and> set (armed (core s)) \<subseteq> {(Max_age_timer, Close_max_age_channel),
                                 (Max_age_grace_timer, Force_close_max_age_channel)}
     \<and> on_consumed ` set (in_flight (core s))
         \<subseteq> {None, Some Start_max_age_grace_timer_after_goaway_op}
     \<and> filter (\<lambda>p. \<not> prog_ok p) (threads s) = []"

definition chain :: "isys \<Rightarrow> nat" where
  "chain s =
     length (exec_queue (core s)) + length (filter live_ev (concat (threads s)))
     + length (armed (core s)) + length (filter has_cont (in_flight (core s)))"

definition age_chain :: "isys \<Rightarrow> nat" where
  "age_chain s =
     length (exec_queue (core s)) + length (filter age_hold_ev (concat (threads s)))
     + length (filter (\<lambda>tc. fst tc = Max_age_timer) (armed (core s)))"

definition flagged :: "isys \<Rightarrow> bool" where
  "flagged s \<longleftrightarrow>
     filter (\<lambda>t. (t \<in> fst ` set (armed (core s)) \<or> filter (holder t) (threads s) \<noteq> [])
                  \<and> \<not> flag t (cd (core s)))
       [Max_age_timer, Max_age_grace_timer] = []"

definition fine :: "isys \<Rightarrow> bool" where
  "fine s \<longleftrightarrow> iwired s \<and> chain s \<le> 1 \<and> age_chain s \<le> 1 \<and> flagged s"

text \<open>
  After a teardown that found nothing outstanding: only silent events remain, and every
  armed timer has had its cancellation requested.
\<close>

definition winding :: "channel_data \<Rightarrow> isys \<Rightarrow> bool" where
  "winding chand1 s \<longleftrightarrow>
     exec_queue (core s) = []
     \<and> filter has_cont (in_flight (core s)) = []
     \<and> filter (\<lambda>tc. tc \<noteq> (Max_age_timer, Close_max_age_channel)
                     \<and> tc \<noteq> (Max_age_grace_timer, Force_close_max_age_channel)
                   \<or> Grpc_timer_cancel (fst tc) \<notin> set (snd (destroy_channel_elem chand1)))
         (armed (core s)) = []
     \<and> filter (\<lambda>e. \<not> silent_ev e) (concat (threads s)) = []"

definition clean_teardown :: "isys \<Rightarrow> iaction list \<Rightarrow> bool" where
  "clean_teardown s1 post \<longleftrightarrow>
     quiescent s1 \<and> list_all (honours_cancel (cd (core s1))) post"

subsection \<open>Auxiliary definitions and sample inputs\<close>

text \<open>
  The duration the argument loop stores for a configured value, in the spec's words: below 1
  it is one second, at the sentinel it is infinite, otherwise that many seconds.
\<close>

definition stored_seconds :: "c_int \<Rightarrow> gpr_timespec" where
  "stored_seconds v =
     (if sint v < 1 then gpr_time_from_seconds 1
      else if v = INT_MAX then gpr_inf_future
      else gpr_time_from_seconds (sint v))"

text \<open>Channel-data memory that holds a five-second grace duration before construction.\<close>

definition chand_5s :: channel_data where
  "chand_5s = \<lparr>max_age_timer_pending = False, max_age_grace_timer_pending = False,
               max_connection_age = Gpr_time 7 0, max_connection_age_grace = Gpr_time 5 0\<rparr>"

definition age_arg :: "c_int \<Rightarrow> grpc_arg" where
  "age_arg v = \<lparr>key = GPRC_ARG_MAX_CONNECION_AGE_S, integer = v\<rparr>"

definition grace_arg :: "c_int \<Rightarrow> grpc_arg" where
  "grace_arg v = \<lparr>key = GPRC_ARG_MAX_CONNECION_AGE_GRACE_S, integer = v\<rparr>"

definition other_arg :: grpc_arg where
  "other_arg = \<lparr>key = ''other'', integer = 3\<rparr>"

definition t100 :: gpr_timespec where
  "t100 = Gpr_time 100 0"

text \<open>Zero-filled channel-data memory.\<close>

definition chand_zeroed :: channel_data where
  "chand_zeroed = \<lparr>max_age_timer_pending = False, max_age_grace_timer_pending = False,
                   max_connection_age = Gpr_time 0 0, max_connection_age_grace = Gpr_time 0 0\<rparr>"

text \<open>
  The spec's scenario \<open>max_age = 5s, grace = 2s\<close>: an execution to the forced
  disconnect, and one in which the age timer delivers Ok although teardown has requested its
  cancellation.
\<close>

definition sample_args :: "grpc_arg list" where
  "sample_args = [age_arg 5, grace_arg 2]"

definition full_run :: "action list" where
  "full_run = [Call_start, Exec t100 t100, Fire Max_age_timer GRPC_ERROR_NONE t100 t100,
     Consumed 0 GRPC_ERROR_NONE t100 t100, Call_end,
     Fire Max_age_grace_timer GRPC_ERROR_NONE t100 t100, Teardown]"

definition race_run :: "action list" where
  "race_run = [Exec t100 t100, Teardown, Fire Max_age_timer GRPC_ERROR_NONE t100 t100]"

text \<open>
  Interleaved executions of the same scenario. \<open>pre_run\<close> arms the age timer and
  lets the start callback finish; after the teardown, \<open>post_run\<close> lets the destructor
  take the mutex and request the cancellation, and the timer deliver Cancelled. In the other three the teardown
  comes while a callback is running, while a continuation is awaited, and while the start
  closure is still scheduled.
\<close>

definition pre_run :: "iaction list" where
  "pre_run = [IExec t100 t100, IAdvance 0, IAdvance 0, IAdvance 0, IAdvance 0, IAdvance 0]"

definition post_run :: "iaction list" where
  "post_run = [IEnter, IAdvance 1, IFire Max_age_timer GRPC_ERROR_CANCELLED t100 t100,
     IAdvance 1, IAdvance 2, IAdvance 2, IAdvance 2]"

definition mid_pre :: "iaction list" where
  "mid_pre = pre_run @ [IFire Max_age_timer GRPC_ERROR_NONE t100 t100,
     IAdvance 1, IAdvance 1, IAdvance 1]"

definition mid_post :: "iaction list" where
  "mid_post = [IEnter, IAdvance 2, IAdvance 1, IAdvance 1]"

definition awaited_pre :: "iaction list" where
  "awaited_pre = pre_run @ [IFire Max_age_timer GRPC_ERROR_NONE t100 t100,
     IAdvance 1, IAdvance 1, IAdvance 1, IAdvance 1, IAdvance 1]"

definition awaited_post :: "iaction list" where
  "awaited_post = [IEnter, IAdvance 2, IConsumed 0 GRPC_ERROR_NONE t100 t100,
     IAdvance 3, IAdvance 3, IAdvance 3, IAdvance 3, IAdvance 3,
     IFire Max_age_grace_timer GRPC_ERROR_NONE t100 t100,
     IAdvance 4, IAdvance 4, IAdvance 4, IAdvance 4]"

definition scheduled_post :: "iaction list" where
  "scheduled_post = [IEnter, IAdvance 0, IExec t100 t100,
     IAdvance 1, IAdvance 1, IAdvance 1, IAdvance 1, IAdvance 1,
     IFire Max_age_timer GRPC_ERROR_NONE t100 t100,
     IAdvance 2, IAdvance 2, IAdvance 2, IAdvance 2, IAdvance 2]"

text \<open>
  After \<open>pre_run\<close> and the teardown: the cancellation is requested and the age timer
  delivers Ok all the same.
\<close>

definition race_post :: "iaction list" where
  "race_post = [IEnter, IAdvance 1, IAdvance 1, IFire Max_age_timer GRPC_ERROR_NONE t100 t100,
     IAdvance 2, IAdvance 2, IAdvance 2, IAdvance 2, IAdvance 2]"

text \<open>
  For a teardown after \<open>pre\<close> and followed by \<open>post\<close>: whether the state was
  quiescent, whether the timers honoured their cancellation, and how many operations were
  dispatched after the teardown.
\<close>

definition teardown_outcome :: "iaction list \<Rightarrow> iaction list \<Rightarrow> (bool \<times> bool \<times> nat option) option" where
  "teardown_outcome pre post =
     map_option
       (\<lambda>s1. (quiescent s1, list_all (honours_cancel (cd (core s1))) post,
              map_option (\<lambda>s. ops_after_destroy (trace (core s))) (irun (ITeardown # post) s1)))
       (irun pre (iboot chand_5s sample_args))"

section \<open>The constructor\<close>

lemma keys_differ: "GPRC_ARG_MAX_CONNECION_AGE_S \<noteq> GPRC_ARG_MAX_CONNECION_AGE_GRACE_S"
  by (simp add: GPRC_ARG_MAX_CONNECION_AGE_S_def GPRC_ARG_MAX_CONNECION_AGE_GRACE_S_def)

lemma sint_INT_MAX: "sint INT_MAX = 2147483647"
  by (simp add: INT_MAX_def)

lemma one_neq_INT_MAX: "(1 :: c_int) \<noteq> INT_MAX"
  by (simp add: INT_MAX_def)

lemma below_1_neq_INT_MAX: "sint v < 1 \<Longrightarrow> v \<noteq> INT_MAX"
  using sint_INT_MAX by auto

lemma get_integer_min_1:
  "grpc_channel_arg_get_integer arg \<lparr>default_value = d, min_value = 1, max_value = INT_MAX\<rparr> =
     (if sint (integer arg) < 1 then 1 else integer arg)"
proof -
  have "sint (integer arg) \<le> 2147483647"
    using sint_lt [of "integer arg"] by simp
  then show ?thesis
    by (simp add: grpc_channel_arg_get_integer_def INT_MAX_def)
qed

lemma step_age_key:
  "key arg = GPRC_ARG_MAX_CONNECION_AGE_S \<Longrightarrow>
   channel_arg_step chand arg = chand\<lparr>max_connection_age := stored_seconds (integer arg)\<rparr>"
  by (simp add: channel_arg_step_def Let_def get_integer_min_1 stored_seconds_def
      one_neq_INT_MAX below_1_neq_INT_MAX)

lemma step_grace_key:
  "key arg = GPRC_ARG_MAX_CONNECION_AGE_GRACE_S \<Longrightarrow>
   channel_arg_step chand arg = chand\<lparr>max_connection_age_grace := stored_seconds (integer arg)\<rparr>"
  by (simp add: channel_arg_step_def Let_def get_integer_min_1 stored_seconds_def
      one_neq_INT_MAX below_1_neq_INT_MAX keys_differ [symmetric])

lemma step_keeps_grace:
  "key arg \<noteq> GPRC_ARG_MAX_CONNECION_AGE_GRACE_S \<Longrightarrow>
   max_connection_age_grace (channel_arg_step chand arg) = max_connection_age_grace chand"
  by (simp add: channel_arg_step_def Let_def)

lemma step_keeps_age:
  "key arg \<noteq> GPRC_ARG_MAX_CONNECION_AGE_S \<Longrightarrow>
   max_connection_age (channel_arg_step chand arg) = max_connection_age chand"
  by (simp add: channel_arg_step_def Let_def)

lemma loop_keeps_grace:
  "\<forall>a \<in> set args. key a \<noteq> GPRC_ARG_MAX_CONNECION_AGE_GRACE_S \<Longrightarrow>
   max_connection_age_grace (foldl channel_arg_step chand args) = max_connection_age_grace chand"
  by (induction args arbitrary: chand) (simp_all add: step_keeps_grace)

lemma loop_keeps_age:
  "\<forall>a \<in> set args. key a \<noteq> GPRC_ARG_MAX_CONNECION_AGE_S \<Longrightarrow>
   max_connection_age (foldl channel_arg_step chand args) = max_connection_age chand"
  by (induction args arbitrary: chand) (simp_all add: step_keeps_age)

lemma loop_split:
  "foldl channel_arg_step chand (pre @ arg # post) =
   foldl channel_arg_step (channel_arg_step (foldl channel_arg_step chand pre) arg) post"
  by simp

lemma defaults_age: "max_connection_age (assign_defaults chand) = gpr_inf_future"
  by (simp add: assign_defaults_def Let_def DEFAULT_MAX_CONNECTION_AGE_GRACE_S_def)

lemma defaults_grace:
  "max_connection_age_grace (assign_defaults chand) = max_connection_age_grace chand"
  by (simp add: assign_defaults_def Let_def)

lemma init_chand:
  "fst (snd (init_channel_elem chand0 args)) =
     foldl channel_arg_step
       (assign_defaults
          (chand0\<lparr>max_age_timer_pending := False, max_age_grace_timer_pending := False\<rparr>))
       args"
  by (simp add: init_channel_elem_def Let_def)

lemma init_ret: "fst (init_channel_elem chand0 args) = GRPC_ERROR_NONE"
  by (simp add: init_channel_elem_def Let_def)

text \<open>
  C1. The claim: after construction with a configuration that does not set the grace key,
  \<open>max_connection_age_grace\<close> is infinite. The constructor evaluated on the empty
  configuration, entered with zero-filled channel-data memory: the grace field still holds
  the zero duration afterwards, which is not the infinite duration.
\<close>

theorem C1_grace_left_unassigned:
  "max_connection_age_grace (fst (snd (init_channel_elem chand_zeroed []))) = Gpr_time 0 0
   \<and> max_connection_age_grace (fst (snd (init_channel_elem chand_zeroed []))) \<noteq> gpr_inf_future"
  by (simp add: init_chand defaults_grace chand_zeroed_def gpr_inf_future_def)

text \<open>
  C8. For each of the two keys, the last argument carrying the key decides the stored
  duration: a value below 1 is stored as one second, the value \<open>INT_MAX\<close> as the infinite
  duration, any other value as that many seconds; the constructor returns no error on
  every configuration.
\<close>

theorem C8_configured_seconds:
  assumes "args = pre @ arg # post" and "\<forall>a \<in> set post. key a \<noteq> key arg"
  shows "fst (init_channel_elem chand0 args) = GRPC_ERROR_NONE
    \<and> (key arg = GPRC_ARG_MAX_CONNECION_AGE_S \<longrightarrow>
         max_connection_age (fst (snd (init_channel_elem chand0 args))) =
           (if sint (integer arg) < 1 then gpr_time_from_seconds 1
            else if integer arg = INT_MAX then gpr_inf_future
            else gpr_time_from_seconds (sint (integer arg))))
    \<and> (key arg = GPRC_ARG_MAX_CONNECION_AGE_GRACE_S \<longrightarrow>
         max_connection_age_grace (fst (snd (init_channel_elem chand0 args))) =
           (if sint (integer arg) < 1 then gpr_time_from_seconds 1
            else if integer arg = INT_MAX then gpr_inf_future
            else gpr_time_from_seconds (sint (integer arg))))"
proof (intro conjI impI)
  show "fst (init_channel_elem chand0 args) = GRPC_ERROR_NONE"
    by (rule init_ret)
next
  assume k: "key arg = GPRC_ARG_MAX_CONNECION_AGE_S"
  with assms(2) have "\<forall>a \<in> set post. key a \<noteq> GPRC_ARG_MAX_CONNECION_AGE_S"
    by simp
  then show "max_connection_age (fst (snd (init_channel_elem chand0 args))) =
           (if sint (integer arg) < 1 then gpr_time_from_seconds 1
            else if integer arg = INT_MAX then gpr_inf_future
            else gpr_time_from_seconds (sint (integer arg)))"
    unfolding init_chand assms(1) loop_split
    by (simp add: loop_keeps_age step_age_key [OF k] stored_seconds_def)
next
  assume k: "key arg = GPRC_ARG_MAX_CONNECION_AGE_GRACE_S"
  with assms(2) have "\<forall>a \<in> set post. key a \<noteq> GPRC_ARG_MAX_CONNECION_AGE_GRACE_S"
    by simp
  then show "max_connection_age_grace (fst (snd (init_channel_elem chand0 args))) =
           (if sint (integer arg) < 1 then gpr_time_from_seconds 1
            else if integer arg = INT_MAX then gpr_inf_future
            else gpr_time_from_seconds (sint (integer arg)))"
    unfolding init_chand assms(1) loop_split
    by (simp add: loop_keeps_grace step_grace_key [OF k] stored_seconds_def)
qed

theorem C8_configured_seconds_witness:
  "max_connection_age
     (fst (snd (init_channel_elem chand_5s [age_arg 30, age_arg 0, grace_arg 9]))) = Gpr_time 1 0
   \<and> max_connection_age_grace
     (fst (snd (init_channel_elem chand_5s [age_arg 30, grace_arg INT_MAX, other_arg]))) =
       Gpr_inf_future"
  using C8_configured_seconds [of "[age_arg 30, age_arg 0, grace_arg 9]" "[age_arg 30]"
          "age_arg 0" "[grace_arg 9]" chand_5s]
        C8_configured_seconds [of "[age_arg 30, grace_arg INT_MAX, other_arg]" "[age_arg 30]"
          "grace_arg INT_MAX" "[other_arg]" chand_5s]
  by (simp add: age_arg_def grace_arg_def other_arg_def gpr_time_from_seconds_def
      gpr_inf_future_def sint_INT_MAX GPRC_ARG_MAX_CONNECION_AGE_S_def
      GPRC_ARG_MAX_CONNECION_AGE_GRACE_S_def)

text \<open>
  C9. Both default constants are \<open>INT_MAX\<close>; the two default assignments leave
  \<open>max_connection_age\<close> infinite and leave \<open>max_connection_age_grace\<close> as it was; a
  configuration without the age key leaves \<open>max_connection_age\<close> infinite; an argument
  whose key is not the grace key does not write \<open>max_connection_age_grace\<close>, and a
  configuration without the grace key leaves that field with the content it had when the
  constructor was entered.
\<close>

theorem C9_defaults_target_age_field:
  "DEFAULT_MAX_CONNECTION_AGE_S = INT_MAX \<and> DEFAULT_MAX_CONNECTION_AGE_GRACE_S = INT_MAX
   \<and> max_connection_age (assign_defaults chand0) = gpr_inf_future
   \<and> max_connection_age_grace (assign_defaults chand0) = max_connection_age_grace chand0
   \<and> ((\<forall>a \<in> set args. key a \<noteq> GPRC_ARG_MAX_CONNECION_AGE_S) \<longrightarrow>
        max_connection_age (fst (snd (init_channel_elem chand0 args))) = gpr_inf_future)
   \<and> (key arg \<noteq> GPRC_ARG_MAX_CONNECION_AGE_GRACE_S \<longrightarrow>
        max_connection_age_grace (channel_arg_step chand0 arg) = max_connection_age_grace chand0)
   \<and> ((\<forall>a \<in> set args. key a \<noteq> GPRC_ARG_MAX_CONNECION_AGE_GRACE_S) \<longrightarrow>
        max_connection_age_grace (fst (snd (init_channel_elem chand0 args))) =
          max_connection_age_grace chand0)"
  by (simp add: init_chand loop_keeps_age loop_keeps_grace defaults_age defaults_grace
      step_keeps_grace DEFAULT_MAX_CONNECTION_AGE_S_def DEFAULT_MAX_CONNECTION_AGE_GRACE_S_def)

theorem C9_defaults_target_age_field_witness:
  "max_connection_age (fst (snd (init_channel_elem chand_5s [other_arg]))) = gpr_inf_future
   \<and> max_connection_age_grace (channel_arg_step chand_5s other_arg) = Gpr_time 5 0
   \<and> max_connection_age_grace (fst (snd (init_channel_elem chand_5s [other_arg]))) = Gpr_time 5 0"
  using C9_defaults_target_age_field [of chand_5s "[other_arg]" other_arg]
  by (simp add: GPRC_ARG_MAX_CONNECION_AGE_S_def GPRC_ARG_MAX_CONNECION_AGE_GRACE_S_def
      chand_5s_def other_arg_def)

section \<open>The callbacks and the per-call hooks\<close>

text \<open>
  C4. For every status the age-timer callback clears \<open>max_age_timer_pending\<close> between
  locking and unlocking the mutex. With the cancelled status it does nothing more; with no
  error it takes one reference to the channel stack and hands element 0 a transport
  operation whose goaway error carries the HTTP/2 no-error code and whose continuation is
  the closure that starts the grace timer; with any other error it logs the error.
\<close>

theorem C4_age_timer_callback:
  "close_max_age_channel chand error =
     (chand\<lparr>max_age_timer_pending := False\<rparr>,
      [Gpr_mu_lock, Store_pending Max_age_timer False, Gpr_mu_unlock]
      @ (if error = GRPC_ERROR_CANCELLED then []
         else if error = GRPC_ERROR_NONE then
           [Channel_stack_ref ''max_age start_max_age_grace_timer_after_goaway_op'',
            Start_transport_op 0
              \<lparr>on_consumed = Some Start_max_age_grace_timer_after_goaway_op,
               goaway_error =
                 GRPC_ERROR_OBJ \<lparr>description = ''max_age'',
                   ints = [(GRPC_ERROR_INT_HTTP2_ERROR, GRPC_HTTP2_NO_ERROR)]\<rparr>,
               disconnect_with_error = GRPC_ERROR_NONE\<rparr>]
         else [Gpr_log ''close_max_age_channel'' error]))"
  by (simp add: close_max_age_channel_def Let_def grpc_make_transport_op_def
      GRPC_LOG_IF_ERROR_def GRPC_ERROR_CREATE_FROM_STATIC_STRING_def grpc_error_set_int_def)

text \<open>
  C5. For every status the grace-timer callback clears \<open>max_age_grace_timer_pending\<close>
  between locking and unlocking the mutex. With the cancelled status it does nothing more;
  with no error it hands element 0 a transport operation that disconnects with an error,
  and takes no reference to the channel stack; with any other error it logs the error.
\<close>

theorem C5_grace_timer_callback:
  "force_close_max_age_channel chand error =
     (chand\<lparr>max_age_grace_timer_pending := False\<rparr>,
      [Gpr_mu_lock, Store_pending Max_age_grace_timer False, Gpr_mu_unlock]
      @ (if error = GRPC_ERROR_CANCELLED then []
         else if error = GRPC_ERROR_NONE then
           [Start_transport_op 0
              \<lparr>on_consumed = None,
               goaway_error = GRPC_ERROR_NONE,
               disconnect_with_error =
                 GRPC_ERROR_OBJ \<lparr>description = ''Channel reaches max age'', ints = []\<rparr>\<rparr>]
         else [Gpr_log ''force_close_max_age_channel'' error]))"
  by (simp add: force_close_max_age_channel_def Let_def grpc_make_transport_op_def
      GRPC_LOG_IF_ERROR_def GRPC_ERROR_CREATE_FROM_STATIC_STRING_def)

text \<open>
  C10. The call constructor returns no error, leaves the channel data as it is and calls
  nothing; the call destructor leaves the channel data as it is and calls nothing; in an
  execution, starting or ending a call leaves the whole state unchanged.
\<close>

theorem C10_call_hooks_do_nothing:
  "init_call_elem chand = (GRPC_ERROR_NONE, chand, [])
   \<and> destroy_call_elem chand = (chand, [])
   \<and> step Call_start s = Some s
   \<and> step Call_end s = Some s"
  by (simp add: init_call_elem_def destroy_call_elem_def commit_def)

section \<open>Properties of executions\<close>

subsection \<open>Traces\<close>

lemma never_before_append:
  "never_before P Q (xs @ ys) \<longleftrightarrow>
     never_before P Q xs \<and> (filter P xs \<noteq> [] \<or> never_before P Q ys)"
  by (induction xs) auto

lemma never_before_no_Q: "filter Q tr = [] \<Longrightarrow> never_before P Q tr"
  by (induction tr) (auto split: if_splits)

lemma never_before_meaning:
  "never_before P Q tr \<longleftrightarrow> (\<forall>xs e ys. tr = xs @ e # ys \<and> Q e \<longrightarrow> (\<exists>x \<in> set xs. P x))"
proof (induction tr)
  case Nil
  then show ?case by simp
next
  case (Cons a tr)
  show ?case
  proof (cases "Q a")
    case True
    have "\<not> (\<forall>xs e ys. a # tr = xs @ e # ys \<and> Q e \<longrightarrow> (\<exists>x \<in> set xs. P x))"
    proof
      assume "\<forall>xs e ys. a # tr = xs @ e # ys \<and> Q e \<longrightarrow> (\<exists>x \<in> set xs. P x)"
      then have "a # tr = [] @ a # tr \<and> Q a \<longrightarrow> (\<exists>x \<in> set []. P x)"
        by blast
      with True show False by simp
    qed
    with True show ?thesis by simp
  next
    case False
    show ?thesis
    proof (cases "P a")
      case True
      have "\<exists>x \<in> set xs. P x" if h: "a # tr = xs @ e # ys" "Q e" for xs e ys
      proof -
        from h False have "xs \<noteq> []" by (cases xs) auto
        with h have "a \<in> set xs" by (cases xs) auto
        with True show ?thesis by blast
      qed
      with True False show ?thesis by auto
    next
      case nP: False
      have "(\<forall>xs e ys. a # tr = xs @ e # ys \<and> Q e \<longrightarrow> (\<exists>x \<in> set xs. P x))
            \<longleftrightarrow> (\<forall>xs e ys. tr = xs @ e # ys \<and> Q e \<longrightarrow> (\<exists>x \<in> set xs. P x))"
      proof
        assume L: "\<forall>xs e ys. a # tr = xs @ e # ys \<and> Q e \<longrightarrow> (\<exists>x \<in> set xs. P x)"
        show "\<forall>xs e ys. tr = xs @ e # ys \<and> Q e \<longrightarrow> (\<exists>x \<in> set xs. P x)"
        proof (intro allI impI)
          fix xs e ys
          assume "tr = xs @ e # ys \<and> Q e"
          then have "a # tr = (a # xs) @ e # ys \<and> Q e" by simp
          with L have "\<exists>x \<in> set (a # xs). P x" by blast
          with nP show "\<exists>x \<in> set xs. P x" by auto
        qed
      next
        assume R: "\<forall>xs e ys. tr = xs @ e # ys \<and> Q e \<longrightarrow> (\<exists>x \<in> set xs. P x)"
        show "\<forall>xs e ys. a # tr = xs @ e # ys \<and> Q e \<longrightarrow> (\<exists>x \<in> set xs. P x)"
        proof (intro allI impI)
          fix xs e ys
          assume h: "a # tr = xs @ e # ys \<and> Q e"
          with False obtain xs' where "xs = a # xs'" "tr = xs' @ e # ys"
            by (cases xs) auto
          with R h show "\<exists>x \<in> set xs. P x" by auto
        qed
      qed
      with False nP Cons.IH show ?thesis by simp
    qed
  qed
qed

lemma no_op_no_goaway: "filter is_transport_op tr = [] \<Longrightarrow> filter is_goaway tr = []"
proof (induction tr)
  case Nil
  then show ?case by simp
next
  case (Cons e tr)
  then show ?case by (cases e) (auto split: if_splits)
qed

lemma no_op_no_disconnect: "filter is_transport_op tr = [] \<Longrightarrow> filter is_disconnect tr = []"
proof (induction tr)
  case Nil
  then show ?case by simp
next
  case (Cons e tr)
  then show ?case by (cases e) (auto split: if_splits)
qed

subsection \<open>The state after construction\<close>

lemma cmp_inf_future: "gpr_time_cmp x gpr_inf_future \<noteq> 0 \<longleftrightarrow> x \<noteq> gpr_inf_future"
  by (cases x) (simp_all add: gpr_inf_future_def)

lemma init_events:
  "snd (snd (init_channel_elem chand0 args)) =
     [Gpr_mu_init,
      Store_pending Max_age_timer False,
      Store_pending Max_age_grace_timer False,
      Grpc_closure_init Close_max_age_channel,
      Grpc_closure_init Force_close_max_age_channel,
      Grpc_closure_init Start_max_age_timer_after_init,
      Grpc_closure_init Start_max_age_grace_timer_after_goaway_op]
     @ (if max_connection_age (fst (snd (init_channel_elem chand0 args))) \<noteq> gpr_inf_future
        then [Channel_stack_ref ''max_age start_max_age_timer_after_init'',
              Grpc_closure_sched Start_max_age_timer_after_init GRPC_ERROR_NONE]
        else [])"
  by (simp add: init_channel_elem_def Let_def cmp_inf_future)

lemma boot_fields:
  "armed (boot chand0 args) = []"
  "in_flight (boot chand0 args) = []"
  "trace (boot chand0 args) = snd (snd (init_channel_elem chand0 args))"
  "cd (boot chand0 args) = fst (snd (init_channel_elem chand0 args))"
  "exec_queue (boot chand0 args) =
     (if max_connection_age (fst (snd (init_channel_elem chand0 args))) \<noteq> gpr_inf_future
      then [(Start_max_age_timer_after_init, GRPC_ERROR_NONE)] else [])"
proof -
  obtain err c evs where r: "init_channel_elem chand0 args = (err, c, evs)"
    by (cases "init_channel_elem chand0 args") auto
  from init_events [of chand0 args] r
  have evs: "evs =
     [Gpr_mu_init,
      Store_pending Max_age_timer False,
      Store_pending Max_age_grace_timer False,
      Grpc_closure_init Close_max_age_channel,
      Grpc_closure_init Force_close_max_age_channel,
      Grpc_closure_init Start_max_age_timer_after_init,
      Grpc_closure_init Start_max_age_grace_timer_after_goaway_op]
     @ (if max_connection_age c \<noteq> gpr_inf_future
        then [Channel_stack_ref ''max_age start_max_age_timer_after_init'',
              Grpc_closure_sched Start_max_age_timer_after_init GRPC_ERROR_NONE]
        else [])"
    by simp
  show "armed (boot chand0 args) = []"
    by (simp add: boot_def commit_def r evs)
  show "in_flight (boot chand0 args) = []"
    by (simp add: boot_def commit_def r evs)
  show "trace (boot chand0 args) = snd (snd (init_channel_elem chand0 args))"
    by (simp add: boot_def commit_def)
  show "cd (boot chand0 args) = fst (snd (init_channel_elem chand0 args))"
    by (simp add: boot_def commit_def)
  show "exec_queue (boot chand0 args) =
     (if max_connection_age (fst (snd (init_channel_elem chand0 args))) \<noteq> gpr_inf_future
      then [(Start_max_age_timer_after_init, GRPC_ERROR_NONE)] else [])"
    by (simp add: boot_def commit_def r evs)
qed

lemma boot_governed: "governed (boot chand0 args)"
proof (cases "max_connection_age (fst (snd (init_channel_elem chand0 args))) = gpr_inf_future")
  case True
  then have "phase_idle (boot chand0 args)"
    by (simp add: phase_idle_def trace_ok_def boot_fields init_events)
  then show ?thesis by (simp add: governed_def)
next
  case False
  then have "phase_scheduled (boot chand0 args)"
    by (simp add: phase_scheduled_def boot_fields init_events)
  then show ?thesis by (simp add: governed_def)
qed

text \<open>
  C6. When the age stored by the constructor is finite, the constructor initialises no
  timer: it takes one reference to the channel stack and schedules the start closure, so
  that afterwards no timer is armed and the start closure is the one closure waiting. The
  start closure, between locking and unlocking the mutex, sets \<open>max_age_timer_pending\<close>
  and initialises the age timer with the deadline \<open>now + max_connection_age\<close> and the
  age-timer callback; after unlocking it releases the reference.
\<close>

theorem C6_deferred_age_timer:
  assumes "max_connection_age (fst (snd (init_channel_elem chand0 args))) \<noteq> gpr_inf_future"
  shows "snd (snd (init_channel_elem chand0 args)) =
     [Gpr_mu_init,
      Store_pending Max_age_timer False,
      Store_pending Max_age_grace_timer False,
      Grpc_closure_init Close_max_age_channel,
      Grpc_closure_init Force_close_max_age_channel,
      Grpc_closure_init Start_max_age_timer_after_init,
      Grpc_closure_init Start_max_age_grace_timer_after_goaway_op,
      Channel_stack_ref ''max_age start_max_age_timer_after_init'',
      Grpc_closure_sched Start_max_age_timer_after_init GRPC_ERROR_NONE]
   \<and> filter is_timer_init (snd (snd (init_channel_elem chand0 args))) = []
   \<and> armed (boot chand0 args) = []
   \<and> exec_queue (boot chand0 args) = [(Start_max_age_timer_after_init, GRPC_ERROR_NONE)]
   \<and> start_max_age_timer_after_init now_deadline now_arg chand error =
       (chand\<lparr>max_age_timer_pending := True\<rparr>,
        [Gpr_mu_lock,
         Store_pending Max_age_timer True,
         Grpc_timer_init Max_age_timer (gpr_time_add now_deadline (max_connection_age chand))
           Close_max_age_channel now_arg,
         Gpr_mu_unlock,
         Channel_stack_unref ''max_age start_max_age_timer_after_init''])"
  using assms
  by (simp add: init_events boot_fields start_max_age_timer_after_init_def)

theorem C6_deferred_age_timer_witness:
  "max_connection_age (fst (snd (init_channel_elem chand_5s sample_args))) = Gpr_time 5 0
   \<and> exec_queue (boot chand_5s sample_args) = [(Start_max_age_timer_after_init, GRPC_ERROR_NONE)]
   \<and> filter is_timer_init (snd (snd (init_channel_elem chand_5s sample_args))) = []
   \<and> snd (start_max_age_timer_after_init t100 t100
            (fst (snd (init_channel_elem chand_5s sample_args))) GRPC_ERROR_NONE) =
        [Gpr_mu_lock,
         Store_pending Max_age_timer True,
         Grpc_timer_init Max_age_timer (Gpr_time 105 0) Close_max_age_channel t100,
         Gpr_mu_unlock,
         Channel_stack_unref ''max_age start_max_age_timer_after_init'']"
proof -
  have a: "max_connection_age (fst (snd (init_channel_elem chand_5s sample_args))) = Gpr_time 5 0"
    by code_simp
  then have "max_connection_age (fst (snd (init_channel_elem chand_5s sample_args))) \<noteq> gpr_inf_future"
    by (simp add: gpr_inf_future_def)
  from C6_deferred_age_timer [OF this, of t100 t100 "fst (snd (init_channel_elem chand_5s sample_args))" GRPC_ERROR_NONE] a
  show ?thesis by (simp add: t100_def)
qed

subsection \<open>What each move of the library does to the state\<close>

lemmas callback_defs =
  run_closure_def
  start_max_age_timer_after_init_def start_max_age_grace_timer_after_goaway_op_def
  close_max_age_channel_def force_close_max_age_channel_def
  grpc_make_transport_op_def GRPC_LOG_IF_ERROR_def GRPC_ERROR_CREATE_FROM_STATIC_STRING_def
  grpc_error_set_int_def

lemma invoke_trace:
  "trace (invoke c e nd na s) = trace s @ Closure_run c e # snd (run_closure c nd na (cd s) e)"
  by (simp add: invoke_def commit_def)

lemma invoke_exec_queue: "exec_queue (invoke c e nd na s) = exec_queue s"
  by (cases c) (simp_all add: invoke_def commit_def callback_defs Let_def)

lemma invoke_armed:
  "armed (invoke c e nd na s) =
     armed s @ (case c of
                  Start_max_age_timer_after_init \<Rightarrow> [(Max_age_timer, Close_max_age_channel)]
                | Start_max_age_grace_timer_after_goaway_op \<Rightarrow>
                    [(Max_age_grace_timer, Force_close_max_age_channel)]
                | _ \<Rightarrow> [])"
  by (cases c) (simp_all add: invoke_def commit_def callback_defs Let_def)

lemma invoke_in_flight:
  "in_flight (invoke c e nd na s) =
     in_flight s @ (if e = GRPC_ERROR_NONE then
                      (case c of
                         Close_max_age_channel \<Rightarrow> [goaway_op]
                       | Force_close_max_age_channel \<Rightarrow> [disconnect_op]
                       | _ \<Rightarrow> [])
                    else [])"
  by (cases c) (simp_all add: invoke_def commit_def callback_defs Let_def goaway_op_def
      disconnect_op_def)

lemma start_init_events:
  "snd (run_closure Start_max_age_timer_after_init nd na chand e) =
     [Gpr_mu_lock, Store_pending Max_age_timer True,
      Grpc_timer_init Max_age_timer (gpr_time_add nd (max_connection_age chand))
        Close_max_age_channel na,
      Gpr_mu_unlock, Channel_stack_unref ''max_age start_max_age_timer_after_init'']"
  by (simp add: callback_defs)

lemma start_grace_events:
  "snd (run_closure Start_max_age_grace_timer_after_goaway_op nd na chand e) =
     [Gpr_mu_lock, Store_pending Max_age_grace_timer True,
      Grpc_timer_init Max_age_grace_timer (gpr_time_add nd (max_connection_age_grace chand))
        Force_close_max_age_channel na,
      Gpr_mu_unlock,
      Channel_stack_unref ''max_age start_max_age_grace_timer_after_goaway_op'']"
  by (simp add: callback_defs)

lemma close_events:
  "snd (run_closure Close_max_age_channel nd na chand e) =
     [Gpr_mu_lock, Store_pending Max_age_timer False, Gpr_mu_unlock]
     @ (if e = GRPC_ERROR_NONE then
          [Channel_stack_ref ''max_age start_max_age_grace_timer_after_goaway_op'',
           Start_transport_op 0 goaway_op]
        else if e = GRPC_ERROR_CANCELLED then []
        else [Gpr_log ''close_max_age_channel'' e])"
  by (simp add: callback_defs Let_def goaway_op_def)

lemma force_close_events:
  "snd (run_closure Force_close_max_age_channel nd na chand e) =
     [Gpr_mu_lock, Store_pending Max_age_grace_timer False, Gpr_mu_unlock]
     @ (if e = GRPC_ERROR_NONE then [Start_transport_op 0 disconnect_op]
        else if e = GRPC_ERROR_CANCELLED then []
        else [Gpr_log ''force_close_max_age_channel'' e])"
  by (simp add: callback_defs Let_def disconnect_op_def)

lemma teardown_fields:
  "exec_queue (commit (s\<lparr>trace := trace s @ [Destroy_run]\<rparr>) (destroy_channel_elem (cd s)))
     = exec_queue s"
  "armed (commit (s\<lparr>trace := trace s @ [Destroy_run]\<rparr>) (destroy_channel_elem (cd s)))
     = armed s"
  "in_flight (commit (s\<lparr>trace := trace s @ [Destroy_run]\<rparr>) (destroy_channel_elem (cd s)))
     = in_flight s"
  "trace (commit (s\<lparr>trace := trace s @ [Destroy_run]\<rparr>) (destroy_channel_elem (cd s)))
     = trace s @ Destroy_run # snd (destroy_channel_elem (cd s))"
  by (simp_all add: commit_def destroy_channel_elem_def)

lemma call_hooks_skip:
  "commit s (snd (init_call_elem (cd s))) = s"
  "commit s (destroy_call_elem (cd s)) = s"
  by (simp_all add: commit_def init_call_elem_def destroy_call_elem_def)

lemma destroy_events_plain:
  "filter is_transport_op (snd (destroy_channel_elem chand)) = []"
  "filter is_grace_timer_init (snd (destroy_channel_elem chand)) = []"
  "filter is_goaway (snd (destroy_channel_elem chand)) = []"
  "filter is_disconnect (snd (destroy_channel_elem chand)) = []"
  "filter is_grace_fired_ok (snd (destroy_channel_elem chand)) = []"
  by (simp_all add: destroy_channel_elem_def)

lemma goaway_op_kind:
  "goaway_error goaway_op \<noteq> GRPC_ERROR_NONE"
  "disconnect_with_error goaway_op = GRPC_ERROR_NONE"
  "on_consumed goaway_op = Some Start_max_age_grace_timer_after_goaway_op"
  by (simp_all add: goaway_op_def)

lemma disconnect_op_kind:
  "disconnect_with_error disconnect_op \<noteq> GRPC_ERROR_NONE"
  "goaway_error disconnect_op = GRPC_ERROR_NONE"
  "on_consumed disconnect_op = None"
  by (simp_all add: disconnect_op_def)

lemmas step_facts =
  invoke_trace invoke_exec_queue invoke_armed invoke_in_flight
  start_init_events start_grace_events close_events force_close_events
  teardown_fields call_hooks_skip destroy_events_plain goaway_op_kind disconnect_op_kind

lemma trace_ok_plain:
  "filter is_disconnect tr = [] \<Longrightarrow> never_before is_goaway is_grace_timer_init tr \<Longrightarrow> trace_ok tr"
  by (simp add: trace_ok_def never_before_no_Q)

lemma scheduled_step:
  assumes "phase_scheduled s" and "step a s = Some s'"
  shows "phase_scheduled s' \<or> phase_age_armed s'"
proof (cases a)
  case (Exec nd na)
  with assms have "phase_age_armed s'"
    by (auto simp: phase_scheduled_def phase_age_armed_def step_facts)
  then show ?thesis by simp
next
  case (Fire t st nd na)
  with assms show ?thesis by (simp add: phase_scheduled_def)
next
  case (Consumed i e nd na)
  with assms show ?thesis by (simp add: phase_scheduled_def)
next
  case Teardown
  with assms have "phase_scheduled s'"
    by (auto simp: phase_scheduled_def step_facts)
  then show ?thesis by simp
next
  case Call_start
  with assms show ?thesis by (simp add: step_facts)
next
  case Call_end
  with assms show ?thesis by (simp add: step_facts)
qed


lemma trace_ok_append_plain:
  "trace_ok tr \<Longrightarrow> filter is_disconnect new = [] \<Longrightarrow> filter is_grace_timer_init new = []
   \<Longrightarrow> trace_ok (tr @ new)"
  by (simp add: trace_ok_def never_before_append never_before_no_Q)

lemma age_armed_step:
  assumes "phase_age_armed s" and "step a s = Some s'"
  shows "phase_age_armed s' \<or> phase_goaway_sent s' \<or> phase_idle s'"
proof (cases a)
  case (Exec nd na)
  with assms show ?thesis by (simp add: phase_age_armed_def)
next
  case (Fire t st nd na)
  from assms(1) have s: "exec_queue s = []" "armed s = [(Max_age_timer, Close_max_age_channel)]"
    "in_flight s = []" "filter is_transport_op (trace s) = []"
    "filter is_grace_timer_init (trace s) = []"
    by (simp_all add: phase_age_armed_def)
  from assms(2) Fire s have t: "t = Max_age_timer"
    by (simp split: if_splits)
  with assms(2) Fire s
  have s': "s' = invoke Close_max_age_channel st nd na
                   (s\<lparr>armed := [], trace := trace s @ [Timer_fired Max_age_timer st]\<rparr>)"
    by simp
  show ?thesis
  proof (cases "st = GRPC_ERROR_NONE")
    case True
    with s s' have "phase_goaway_sent s'"
      by (simp add: phase_goaway_sent_def step_facts no_op_no_disconnect)
    then show ?thesis by simp
  next
    case False
    have "trace_ok (trace s')"
      unfolding s' invoke_trace
      by (rule trace_ok_plain)
        (use s False in \<open>simp_all add: step_facts no_op_no_disconnect never_before_no_Q\<close>)
    with s s' False have "phase_idle s'"
      by (simp add: phase_idle_def step_facts)
    then show ?thesis by simp
  qed
next
  case (Consumed i e nd na)
  with assms show ?thesis by (simp add: phase_age_armed_def)
next
  case Teardown
  with assms have "phase_age_armed s'"
    by (auto simp: phase_age_armed_def step_facts)
  then show ?thesis by simp
next
  case Call_start
  with assms show ?thesis by (simp add: step_facts)
next
  case Call_end
  with assms show ?thesis by (simp add: step_facts)
qed

lemma goaway_sent_step:
  assumes "phase_goaway_sent s" and "step a s = Some s'"
  shows "phase_goaway_sent s' \<or> phase_grace_armed s'"
proof (cases a)
  case (Exec nd na)
  with assms show ?thesis by (simp add: phase_goaway_sent_def)
next
  case (Fire t st nd na)
  with assms show ?thesis by (simp add: phase_goaway_sent_def)
next
  case (Consumed i e nd na)
  from assms(1) have s: "exec_queue s = []" "armed s = []" "in_flight s = [goaway_op]"
    "filter is_goaway (trace s) \<noteq> []" "filter is_disconnect (trace s) = []"
    "filter is_grace_timer_init (trace s) = []"
    by (simp_all add: phase_goaway_sent_def)
  from assms(2) Consumed s have i: "i = 0"
    by (simp split: if_splits)
  with assms(2) Consumed s
  have s': "s' = invoke Start_max_age_grace_timer_after_goaway_op e nd na (s\<lparr>in_flight := []\<rparr>)"
    by (simp add: goaway_op_kind)
  with s have "phase_grace_armed s'"
    by (simp add: phase_grace_armed_def step_facts never_before_append never_before_no_Q)
  then show ?thesis by simp
next
  case Teardown
  with assms have "phase_goaway_sent s'"
    by (auto simp: phase_goaway_sent_def step_facts)
  then show ?thesis by simp
next
  case Call_start
  with assms show ?thesis by (simp add: step_facts)
next
  case Call_end
  with assms show ?thesis by (simp add: step_facts)
qed

lemma grace_armed_step:
  assumes "phase_grace_armed s" and "step a s = Some s'"
  shows "phase_grace_armed s' \<or> phase_idle s'"
proof (cases a)
  case (Exec nd na)
  with assms show ?thesis by (simp add: phase_grace_armed_def)
next
  case (Fire t st nd na)
  from assms(1) have s: "exec_queue s = []"
    "armed s = [(Max_age_grace_timer, Force_close_max_age_channel)]"
    "in_flight s = []" "filter is_goaway (trace s) \<noteq> []" "filter is_disconnect (trace s) = []"
    "never_before is_goaway is_grace_timer_init (trace s)"
    by (simp_all add: phase_grace_armed_def)
  from assms(2) Fire s have t: "t = Max_age_grace_timer"
    by (simp split: if_splits)
  with assms(2) Fire s
  have s': "s' = invoke Force_close_max_age_channel st nd na
                   (s\<lparr>armed := [], trace := trace s @ [Timer_fired Max_age_grace_timer st]\<rparr>)"
    by simp
  have "trace_ok (trace s')"
    unfolding s' invoke_trace trace_ok_def
    using s by (simp add: step_facts never_before_append never_before_no_Q)
  with s s' have "phase_idle s'"
    by (simp add: phase_idle_def step_facts)
  then show ?thesis by simp
next
  case (Consumed i e nd na)
  with assms show ?thesis by (simp add: phase_grace_armed_def)
next
  case Teardown
  with assms have "phase_grace_armed s'"
    by (auto simp: phase_grace_armed_def step_facts never_before_append)
  then show ?thesis by simp
next
  case Call_start
  with assms show ?thesis by (simp add: step_facts)
next
  case Call_end
  with assms show ?thesis by (simp add: step_facts)
qed

lemma filter_without_nth:
  "filter P xs = [] \<Longrightarrow> filter P (take i xs @ drop (Suc i) xs) = []"
  by (auto simp: filter_empty_conv dest: in_set_takeD in_set_dropD)

lemma idle_step:
  assumes "phase_idle s" and "step a s = Some s'"
  shows "phase_idle s'"
proof (cases a)
  case (Exec nd na)
  with assms show ?thesis by (simp add: phase_idle_def)
next
  case (Fire t st nd na)
  with assms show ?thesis by (simp add: phase_idle_def)
next
  case (Consumed i e nd na)
  from assms(1) have s: "exec_queue s = []" "armed s = []"
    "filter (\<lambda>op. on_consumed op \<noteq> None) (in_flight s) = []" "trace_ok (trace s)"
    by (simp_all add: phase_idle_def)
  from assms(2) Consumed have i: "i < length (in_flight s)"
    by (simp split: if_splits)
  with s(3) have "on_consumed (in_flight s ! i) = None"
    by (simp add: filter_empty_conv)
  with assms(2) Consumed i
  have s': "s' = s\<lparr>in_flight := take i (in_flight s) @ drop (Suc i) (in_flight s)\<rparr>"
    by simp
  with s filter_without_nth [OF s(3), of i] show ?thesis
    by (simp add: phase_idle_def)
next
  case Teardown
  with assms show ?thesis
    by (auto simp: phase_idle_def step_facts intro!: trace_ok_append_plain)
next
  case Call_start
  with assms show ?thesis by (simp add: step_facts)
next
  case Call_end
  with assms show ?thesis by (simp add: step_facts)
qed

lemma governed_step: "governed s \<Longrightarrow> step a s = Some s' \<Longrightarrow> governed s'"
  unfolding governed_def
  using scheduled_step age_armed_step goaway_sent_step grace_armed_step idle_step
  by blast

lemma governed_run: "governed s \<Longrightarrow> run acts s = Some s' \<Longrightarrow> governed s'"
proof (induction acts arbitrary: s)
  case Nil
  then show ?case by simp
next
  case (Cons a acts)
  then show ?case
    by (auto split: option.splits dest: governed_step)
qed

lemma governed_trace_ok: "governed s \<Longrightarrow> trace_ok (trace s)"
  unfolding governed_def
proof (elim disjE)
  assume "phase_scheduled s"
  then show ?thesis
    by (simp add: phase_scheduled_def trace_ok_plain no_op_no_disconnect never_before_no_Q)
next
  assume "phase_age_armed s"
  then show ?thesis
    by (simp add: phase_age_armed_def trace_ok_plain no_op_no_disconnect never_before_no_Q)
next
  assume "phase_goaway_sent s"
  then show ?thesis
    by (simp add: phase_goaway_sent_def trace_ok_plain never_before_no_Q)
next
  assume "phase_grace_armed s"
  then show ?thesis
    by (simp add: phase_grace_armed_def trace_ok_plain)
next
  assume "phase_idle s"
  then show ?thesis
    by (simp add: phase_idle_def)
qed

text \<open>
  C3. In every execution that starts with the constructor: a grace-timer initialisation is
  never before the first goaway operation; at most one disconnect operation is dispatched;
  a disconnect operation is never before the grace timer has delivered the Ok status, and
  never before the first goaway operation.
\<close>

theorem C3_shutdown_order:
  assumes "run acts (boot chand0 args) = Some s"
  shows "never_before is_goaway is_grace_timer_init (trace s)
     \<and> length (filter is_disconnect (trace s)) \<le> 1
     \<and> never_before is_grace_fired_ok is_disconnect (trace s)
     \<and> never_before is_goaway is_disconnect (trace s)"
  using governed_trace_ok [OF governed_run [OF boot_governed assms]]
  by (simp add: trace_ok_def)

lemma full_run_runs: "run full_run (boot chand_5s sample_args) \<noteq> None"
  by code_simp

lemma full_run_disconnects:
  "map_option (length \<circ> filter is_disconnect \<circ> trace) (run full_run (boot chand_5s sample_args)) = Some 1"
  by code_simp

theorem C3_shutdown_order_witness:
  "\<exists>s. run full_run (boot chand_5s sample_args) = Some s
     \<and> never_before is_goaway is_grace_timer_init (trace s)
     \<and> length (filter is_disconnect (trace s)) = 1
     \<and> never_before is_grace_fired_ok is_disconnect (trace s)
     \<and> never_before is_goaway is_disconnect (trace s)"
proof -
  from full_run_runs obtain s where r: "run full_run (boot chand_5s sample_args) = Some s"
    by auto
  with full_run_disconnects have "length (filter is_disconnect (trace s)) = 1"
    by simp
  with C3_shutdown_order [OF r] r show ?thesis by simp
qed

subsection \<open>An infinite age\<close>

lemma destroy_events_no_timer_init:
  "filter is_timer_init (snd (destroy_channel_elem chand)) = []"
  by (simp add: destroy_channel_elem_def)

lemma inert_step:
  assumes "inert s" and "step a s = Some s'"
  shows "inert s'"
proof (cases a)
  case (Exec nd na)
  with assms show ?thesis by (simp add: inert_def)
next
  case (Fire t st nd na)
  with assms show ?thesis by (simp add: inert_def)
next
  case (Consumed i e nd na)
  with assms show ?thesis by (simp add: inert_def)
next
  case Teardown
  with assms show ?thesis
    by (auto simp: inert_def step_facts destroy_events_no_timer_init)
next
  case Call_start
  with assms show ?thesis by (simp add: step_facts)
next
  case Call_end
  with assms show ?thesis by (simp add: step_facts)
qed

lemma inert_run: "inert s \<Longrightarrow> run acts s = Some s' \<Longrightarrow> inert s'"
proof (induction acts arbitrary: s)
  case Nil
  then show ?case by simp
next
  case (Cons a acts)
  then show ?case
    by (auto split: option.splits dest: inert_step)
qed

lemma boot_inert:
  "max_connection_age (fst (snd (init_channel_elem chand0 args))) = gpr_inf_future \<Longrightarrow>
   inert (boot chand0 args)"
  by (simp add: inert_def boot_fields init_events)

text \<open>
  C2. When the age stored by the constructor is infinite, the constructor schedules no
  closure, and in every execution that starts with it no timer is ever initialised and no
  transport operation is ever dispatched.
\<close>

theorem C2_infinite_age_is_inert:
  assumes "max_connection_age (fst (snd (init_channel_elem chand0 args))) = gpr_inf_future"
    and "run acts (boot chand0 args) = Some s"
  shows "filter is_closure_sched (snd (snd (init_channel_elem chand0 args))) = []
     \<and> filter is_timer_init (trace s) = []
     \<and> filter is_transport_op (trace s) = []"
  using inert_run [OF boot_inert [OF assms(1)] assms(2)] assms(1)
  by (simp add: inert_def init_events)

theorem C2_infinite_age_is_inert_witness:
  "max_connection_age (fst (snd (init_channel_elem chand_5s [grace_arg 2]))) = gpr_inf_future
   \<and> (\<exists>s. run [Call_start, Teardown, Call_end] (boot chand_5s [grace_arg 2]) = Some s
        \<and> filter is_timer_init (trace s) = [] \<and> filter is_transport_op (trace s) = [])"
proof -
  have a: "max_connection_age (fst (snd (init_channel_elem chand_5s [grace_arg 2]))) = gpr_inf_future"
    by (simp add: init_chand defaults_age step_keeps_age grace_arg_def keys_differ [symmetric])
  obtain s where r: "run [Call_start, Teardown, Call_end] (boot chand_5s [grace_arg 2]) = Some s"
    by (simp add: step_facts)
  from C2_infinite_age_is_inert [OF a r] a r show ?thesis by simp
qed

subsection \<open>Interleaved executions: events and threads\<close>

text \<open>
  The stores a callback emits, applied one after the other, give the channel data the
  callback returns.
\<close>

lemma store_matches_callback:
  "fold store (snd (run_closure c nd na chand e)) chand = fst (run_closure c nd na chand e)"
  by (cases c)
    (simp_all add: run_closure_def start_max_age_timer_after_init_def
      start_max_age_grace_timer_after_goaway_op_def close_max_age_channel_def
      force_close_max_age_channel_def Let_def GRPC_LOG_IF_ERROR_def)

lemma store_matches_destroy:
  "fold store (snd (destroy_channel_elem chand)) chand = fst (destroy_channel_elem chand)"
  by (simp add: destroy_channel_elem_def)

lemma deliver_fields:
  "exec_queue (deliver e c) = exec_queue c @ scheds e"
  "armed (deliver e c) = armed c @ arms e"
  "in_flight (deliver e c) = in_flight c @ sends e"
  "cd (deliver e c) = cd c"
  "trace (deliver e c) = trace c"
  by (cases e; simp)+

lemma emit_fields:
  "exec_queue (core (emit e s)) = exec_queue (core s) @ scheds e"
  "armed (core (emit e s)) = armed (core s) @ arms e"
  "in_flight (core (emit e s)) = in_flight (core s) @ sends e"
  "cd (core (emit e s)) = store e (cd (core s))"
  "trace (core (emit e s)) = trace (core s) @ [e]"
  "threads (emit e s) = threads s"
  by (simp_all add: emit_def deliver_fields)

lemma spawn_fields:
  "exec_queue (core (spawn c e nd na s)) = exec_queue (core s)"
  "armed (core (spawn c e nd na s)) = armed (core s)"
  "in_flight (core (spawn c e nd na s)) = in_flight (core s)"
  "cd (core (spawn c e nd na s)) = cd (core s)"
  "trace (core (spawn c e nd na s)) = trace (core s) @ [Closure_run c e]"
  "threads (spawn c e nd na s) = threads s @ [snd (run_closure c nd na (cd (core s)) e)]"
  by (simp_all add: spawn_def)

lemma flagged_iff:
  "flagged s \<longleftrightarrow>
     (\<forall>t. t \<in> fst ` set (armed (core s)) \<or> (\<exists>p \<in> set (threads s). holder t p)
          \<longrightarrow> flag t (cd (core s)))"
proof -
  have all: "(\<forall>t. P t) \<longleftrightarrow> P Max_age_timer \<and> P Max_age_grace_timer" for P
    by (metis timer_id.exhaust)
  show ?thesis
    unfolding flagged_def all [of "\<lambda>t. _ t \<longrightarrow> _ t"]
    by (auto simp: filter_empty_conv)
qed

lemma iwired_iff:
  "iwired s \<longleftrightarrow>
     set (exec_queue (core s)) \<subseteq> {(Start_max_age_timer_after_init, GRPC_ERROR_NONE)}
     \<and> set (armed (core s)) \<subseteq> {(Max_age_timer, Close_max_age_channel),
                                 (Max_age_grace_timer, Force_close_max_age_channel)}
     \<and> on_consumed ` set (in_flight (core s))
         \<subseteq> {None, Some Start_max_age_grace_timer_after_goaway_op}
     \<and> (\<forall>p \<in> set (threads s). prog_ok p)"
  by (auto simp: iwired_def filter_empty_conv)

lemma prog_ok_tl: "prog_ok (e # p) \<Longrightarrow> prog_ok p"
  by (auto simp: prog_ok_def split: if_splits)

lemma prog_ok_hd: "prog_ok (e # p) \<Longrightarrow> wired_ev e"
  by (auto simp: prog_ok_def split: if_splits)

lemma prog_ok_init:
  "prog_ok (e # p) \<Longrightarrow> is_init_of t e \<Longrightarrow> Store_pending t True \<notin> set p"
  by (cases t) (auto simp: prog_ok_def split: if_splits)

lemma closure_prog_ok: "prog_ok (snd (run_closure c nd na chand e))"
  by (cases c) (simp_all add: prog_ok_def step_facts goaway_op_kind disconnect_op_kind)

lemma destroy_prog_ok: "prog_ok (snd (destroy_channel_elem chand))"
  by (simp add: prog_ok_def destroy_channel_elem_def)

lemma wired_ev_effects:
  assumes "wired_ev e"
  shows "scheds e = []"
    and "set (arms e) \<subseteq> {(Max_age_timer, Close_max_age_channel),
                          (Max_age_grace_timer, Force_close_max_age_channel)}"
    and "on_consumed ` set (sends e) \<subseteq> {None, Some Start_max_age_grace_timer_after_goaway_op}"
  using assms by (cases e; auto)+

lemma event_weight:
  "length (arms e) + length (filter has_cont (sends e)) \<le> (if live_ev e then 1 else 0)"
  by (cases e) simp_all

lemma event_age_weight:
  "length (filter (\<lambda>tc. fst tc = Max_age_timer) (arms e)) \<le> (if age_hold_ev e then 1 else 0)"
  by (cases e) simp_all

lemma concat_nth_split:
  "k < length ths \<Longrightarrow> ths ! k = e # rest \<Longrightarrow>
   \<exists>a b. concat ths = a @ e # rest @ b \<and> concat (ths[k := rest]) = a @ rest @ b"
proof (induction ths arbitrary: k)
  case Nil
  then show ?case by simp
next
  case (Cons p ths)
  show ?case
  proof (cases k)
    case 0
    with Cons.prems have "concat (p # ths) = [] @ e # rest @ concat ths"
      and "concat ((p # ths)[k := rest]) = [] @ rest @ concat ths"
      by simp_all
    then show ?thesis by blast
  next
    case (Suc j)
    with Cons.prems have "j < length ths" "ths ! j = e # rest" by simp_all
    from Cons.IH [OF this] obtain a b
      where "concat ths = a @ e # rest @ b" "concat (ths[j := rest]) = a @ rest @ b"
      by blast
    with Suc have "concat (p # ths) = (p @ a) @ e # rest @ b"
      and "concat ((p # ths)[k := rest]) = (p @ a) @ rest @ b"
      by simp_all
    then show ?thesis by blast
  qed
qed

lemma count_after_advance:
  assumes "k < length ths" and "ths ! k = e # rest"
  shows "length (filter P (concat (ths[k := rest]))) + (if P e then 1 else 0)
         = length (filter P (concat ths))"
  using concat_nth_split [OF assms] by auto

lemma closure_live_weight:
  "length (filter live_ev (snd (run_closure c nd na chand e))) \<le> 1"
  by (cases c) (simp_all add: step_facts has_cont_def goaway_op_kind disconnect_op_kind)

lemma closure_age_weight:
  "length (filter age_hold_ev (snd (run_closure c nd na chand e))) \<le> 1"
  by (cases c) (simp_all add: step_facts)

lemma closure_age_weight_grace:
  "c = Force_close_max_age_channel \<or> c = Start_max_age_grace_timer_after_goaway_op \<Longrightarrow>
   filter age_hold_ev (snd (run_closure c nd na chand e)) = []"
  by (auto simp: step_facts)

lemma destroy_weights:
  "filter live_ev (snd (destroy_channel_elem chand)) = []"
  "filter age_hold_ev (snd (destroy_channel_elem chand)) = []"
  by (simp_all add: destroy_channel_elem_def)

lemma destroy_events_head:
  "\<exists>rest. snd (destroy_channel_elem chand) = Gpr_mu_lock # rest"
  by (simp add: destroy_channel_elem_def)

lemma holder_closure:
  "holder t (snd (run_closure c nd na chand e)) \<longleftrightarrow>
     (c = Close_max_age_channel \<and> t = Max_age_timer)
     \<or> (c = Force_close_max_age_channel \<and> t = Max_age_grace_timer)"
  by (cases c; cases t) (auto simp: holder_def step_facts)

lemma holder_destroy: "\<not> holder t (snd (destroy_channel_elem chand))"
  by (simp add: holder_def destroy_channel_elem_def)

lemma holder_tl: "holder t rest \<Longrightarrow> e \<noteq> Store_pending t True \<Longrightarrow> holder t (e # rest)"
  by (auto simp: holder_def)

lemma holder_Nil: "\<not> holder t []"
  by (simp add: holder_def)

lemma holder_has_event:
  assumes "holder t q"
  shows "filter (if t = Max_age_timer then age_hold_ev else live_ev) q \<noteq> []"
proof -
  let ?P = "if t = Max_age_timer then age_hold_ev else live_ev"
  from assms consider "Store_pending t False \<in> set q" | ev where "ev \<in> set q" "is_init_of t ev"
    by (auto simp: holder_def filter_empty_conv)
  then obtain ev where "ev \<in> set q" "?P ev"
  proof cases
    case 1
    moreover have "?P (Store_pending t False)" by (cases t) simp_all
    ultimately show ?thesis using that by blast
  next
    case 2
    from 2(2) have "?P ev" by (cases ev; cases t) simp_all
    with 2(1) show ?thesis using that by blast
  qed
  then show ?thesis by (auto simp: filter_empty_conv)
qed

lemma flag_store_other:
  assumes "e \<noteq> Store_pending t True" and "e \<noteq> Store_pending t False"
  shows "flag t (store e chand) = flag t chand"
proof (cases e)
  case (Store_pending t' b)
  with assms have "t' \<noteq> t" by (cases b) auto
  with Store_pending show ?thesis by (cases t; cases t') simp_all
qed simp_all

lemma flag_store_set: "flag t (store (Store_pending t b) chand) = b"
  by (cases t) simp_all

lemma arms_not_init: "\<not> is_init_of t e \<Longrightarrow> t \<notin> fst ` set (arms e)"
  by (cases e) auto

lemma iwired_advance:
  assumes "iwired s" and "k < length (threads s)" and "threads s ! k = e # rest"
  shows "iwired ((emit e s)\<lparr>threads := (threads s)[k := rest]\<rparr>)"
proof -
  from assms(2,3) have "e # rest \<in> set (threads s)" by (metis nth_mem)
  with assms(1) have ok: "prog_ok (e # rest)" by (simp add: iwired_iff)
  note w = wired_ev_effects [OF prog_ok_hd [OF ok]]
  have "\<forall>p \<in> set ((threads s)[k := rest]). prog_ok p"
    using assms(1) prog_ok_tl [OF ok] set_update_subset_insert [of "threads s" k rest]
    by (auto simp: iwired_iff)
  with assms(1) w show ?thesis
    by (auto simp: iwired_iff emit_fields)
qed

lemma chain_advance:
  assumes "k < length (threads s)" and "threads s ! k = e # rest" and "wired_ev e"
  shows "chain ((emit e s)\<lparr>threads := (threads s)[k := rest]\<rparr>) \<le> chain s"
  using count_after_advance [OF assms(1,2), of live_ev] event_weight [of e]
    wired_ev_effects(1) [OF assms(3)]
  by (simp add: chain_def emit_fields split: if_splits)

lemma age_chain_advance:
  assumes "k < length (threads s)" and "threads s ! k = e # rest" and "wired_ev e"
  shows "age_chain ((emit e s)\<lparr>threads := (threads s)[k := rest]\<rparr>) \<le> age_chain s"
  using count_after_advance [OF assms(1,2), of age_hold_ev] event_age_weight [of e]
    wired_ev_effects(1) [OF assms(3)]
  by (simp add: age_chain_def emit_fields split: if_splits)

lemma flagged_advance:
  assumes fl: "flagged s" and ch: "chain s \<le> 1" and ac: "age_chain s \<le> 1"
    and k: "k < length (threads s)" and p: "threads s ! k = e # rest"
    and ok: "prog_ok (e # rest)"
  shows "flagged ((emit e s)\<lparr>threads := (threads s)[k := rest]\<rparr>)"
  unfolding flagged_iff
proof (intro allI impI)
  fix t
  let ?s' = "(emit e s)\<lparr>threads := (threads s)[k := rest]\<rparr>"
  assume "t \<in> fst ` set (armed (core ?s')) \<or> (\<exists>q \<in> set (threads ?s'). holder t q)"
  then have prem: "t \<in> fst ` set (armed (core s)) \<or> t \<in> fst ` set (arms e)
      \<or> (\<exists>q \<in> set ((threads s)[k := rest]). holder t q)"
    by (auto simp: emit_fields)
  from k p have mem: "e # rest \<in> set (threads s)" by (metis nth_mem)
  have old: "flag t (cd (core s))"
    if "t \<in> fst ` set (armed (core s)) \<or> (\<exists>q \<in> set (threads s). holder t q)"
    using fl that unfolding flagged_iff by blast
  consider (setT) "e = Store_pending t True" | (setF) "e = Store_pending t False"
    | (init) "is_init_of t e"
    | (other) "e \<noteq> Store_pending t True" "e \<noteq> Store_pending t False" "\<not> is_init_of t e"
    by blast
  then have "flag t (store e (cd (core s)))"
  proof cases
    case setT
    then show ?thesis by (simp add: flag_store_set)
  next
    case setF
    have False
    proof (cases t)
      case Max_age_timer
      with setF have "age_hold_ev e" by simp
      with count_after_advance [OF k p, of age_hold_ev]
      have "length (filter age_hold_ev (concat ((threads s)[k := rest]))) + 1
            = length (filter age_hold_ev (concat (threads s)))"
        by simp
      with ac
      have "length (filter age_hold_ev (concat ((threads s)[k := rest]))) = 0
          \<and> length (filter (\<lambda>tc. fst tc = Max_age_timer) (armed (core s))) = 0"
        unfolding age_chain_def by linarith
      then have none: "filter age_hold_ev (concat ((threads s)[k := rest])) = []"
        and na: "filter (\<lambda>tc. fst tc = Max_age_timer) (armed (core s)) = []"
        by simp_all
      from na have "t \<notin> fst ` set (armed (core s))"
        using Max_age_timer by (auto simp: filter_empty_conv)
      moreover from setF have "t \<notin> fst ` set (arms e)" by simp
      moreover have "\<not> holder t q" if "q \<in> set ((threads s)[k := rest])" for q
      proof
        assume "holder t q"
        from holder_has_event [OF this] Max_age_timer
        obtain ev where "ev \<in> set q" "age_hold_ev ev"
          by (auto simp: filter_empty_conv)
        with that none show False by (auto simp: filter_empty_conv)
      qed
      ultimately show False using prem by blast
    next
      case Max_age_grace_timer
      with setF have "live_ev e" by simp
      with count_after_advance [OF k p, of live_ev]
      have "length (filter live_ev (concat ((threads s)[k := rest]))) + 1
            = length (filter live_ev (concat (threads s)))"
        by simp
      with ch
      have "length (filter live_ev (concat ((threads s)[k := rest]))) = 0
          \<and> length (armed (core s)) = 0"
        unfolding chain_def by linarith
      then have none: "filter live_ev (concat ((threads s)[k := rest])) = []"
        and na: "armed (core s) = []"
        by simp_all
      from na have "t \<notin> fst ` set (armed (core s))" by simp
      moreover from setF have "t \<notin> fst ` set (arms e)" by simp
      moreover have "\<not> holder t q" if "q \<in> set ((threads s)[k := rest])" for q
      proof
        assume "holder t q"
        from holder_has_event [OF this] Max_age_grace_timer
        obtain ev where "ev \<in> set q" "live_ev ev"
          by (auto simp: filter_empty_conv)
        with that none show False by (auto simp: filter_empty_conv)
      qed
      ultimately show False using prem by blast
    qed
    then show ?thesis ..
  next
    case init
    then have st: "store e (cd (core s)) = cd (core s)" by (cases e) simp_all
    from init have "filter (is_init_of t) (e # rest) \<noteq> []" by simp
    moreover from prog_ok_init [OF ok init] init have "Store_pending t True \<notin> set (e # rest)"
      by (cases e) auto
    ultimately have "holder t (e # rest)" by (simp add: holder_def)
    with mem old st show ?thesis by auto
  next
    case other
    from other(3) have a: "t \<notin> fst ` set (arms e)" by (rule arms_not_init)
    have "\<exists>q \<in> set (threads s). holder t q"
      if "\<exists>q \<in> set ((threads s)[k := rest]). holder t q"
    proof -
      from that obtain q where q: "q \<in> set ((threads s)[k := rest])" "holder t q" by blast
      from q(1) set_update_subset_insert [of "threads s" k rest]
      have "q = rest \<or> q \<in> set (threads s)" by auto
      with q(2) mem holder_tl [OF _ other(1)] show ?thesis by blast
    qed
    with prem a old have "flag t (cd (core s))" by blast
    with other show ?thesis by (simp add: flag_store_other)
  qed
  then show "flag t (cd (core ?s'))" by (simp add: emit_fields)
qed

lemma fine_advance:
  assumes "fine s" and "k < length (threads s)" and "threads s ! k = e # rest"
  shows "fine ((emit e s)\<lparr>threads := (threads s)[k := rest]\<rparr>)"
proof -
  from assms(2,3) have "e # rest \<in> set (threads s)" by (metis nth_mem)
  with assms(1) have ok: "prog_ok (e # rest)" by (simp add: fine_def iwired_iff)
  note w = prog_ok_hd [OF ok]
  from assms(1) have f: "iwired s" "chain s \<le> 1" "age_chain s \<le> 1" "flagged s"
    by (simp_all add: fine_def)
  from iwired_advance [OF f(1) assms(2,3)] chain_advance [OF assms(2,3) w]
    age_chain_advance [OF assms(2,3) w] flagged_advance [OF f(4) f(2) f(3) assms(2,3) ok] f
  show ?thesis by (simp add: fine_def)
qed

text \<open>Adding the program of a closure.\<close>

lemma fine_spawn:
  assumes w: "iwired s" and c: "chain s + 1 \<le> 1" and a: "age_chain s + n \<le> 1"
    and n: "length (filter age_hold_ev (snd (run_closure c nd na (cd (core s)) e))) \<le> n"
    and fl: "flagged s"
    and h: "\<And>t. holder t (snd (run_closure c nd na (cd (core s)) e)) \<Longrightarrow> flag t (cd (core s))"
  shows "fine (spawn c e nd na s)"
proof -
  have "iwired (spawn c e nd na s)"
    using w closure_prog_ok by (auto simp: iwired_iff spawn_fields)
  moreover have "chain (spawn c e nd na s) \<le> 1"
    using c closure_live_weight [of c nd na "cd (core s)" e]
    by (simp add: chain_def spawn_fields)
  moreover have "age_chain (spawn c e nd na s) \<le> 1"
    using a n by (simp add: age_chain_def spawn_fields)
  moreover have "flagged (spawn c e nd na s)"
    using fl h by (auto simp: flagged_iff spawn_fields)
  ultimately show ?thesis by (simp add: fine_def)
qed

subsection \<open>Interleaved executions: every move keeps the invariant\<close>

lemma count_without_nth:
  assumes "i < length xs"
  shows "length (filter P (take i xs @ drop (Suc i) xs)) + (if P (xs ! i) then 1 else 0)
         = length (filter P xs)"
proof -
  have "filter P xs = filter P (take i xs @ xs ! i # drop (Suc i) xs)"
    using id_take_nth_drop [OF assms] by (rule arg_cong)
  then show ?thesis by simp
qed

lemma length_remove1_mem: "x \<in> set xs \<Longrightarrow> length (remove1 x xs) + 1 = length xs"
  using length_remove1 [of x xs] length_pos_if_in_set [of x xs] by simp

lemma fine_boot: "fine (iboot chand0 args)"
  by (simp add: fine_def iwired_iff chain_def age_chain_def flagged_iff iboot_def boot_fields)

lemma fine_exec:
  assumes f: "fine s" and q: "exec_queue (core s) = (c, e) # q"
  shows "fine (spawn c e nd na (s\<lparr>core := (core s)\<lparr>exec_queue := q\<rparr>\<rparr>))"
proof (rule fine_spawn [where n = 1])
  let ?s0 = "s\<lparr>core := (core s)\<lparr>exec_queue := q\<rparr>\<rparr>"
  from f q have c: "c = Start_max_age_timer_after_init"
    by (auto simp: fine_def iwired_iff)
  from f q show "iwired ?s0" by (auto simp: fine_def iwired_iff)
  from f q show "chain ?s0 + 1 \<le> 1" by (simp add: fine_def chain_def)
  from f q show "age_chain ?s0 + 1 \<le> 1" by (simp add: fine_def age_chain_def)
  show "length (filter age_hold_ev (snd (run_closure c nd na (cd (core ?s0)) e))) \<le> 1"
    by (rule closure_age_weight)
  from f show "flagged ?s0" by (simp add: fine_def flagged_iff)
  show "flag t (cd (core ?s0))" if "holder t (snd (run_closure c nd na (cd (core ?s0)) e))" for t
    using that c by (simp add: holder_closure)
qed

lemma fine_fire:
  assumes f: "fine s" and m: "map_of (armed (core s)) t = Some c"
  shows "fine (spawn c st nd na
           (s\<lparr>core := (core s)\<lparr>armed := remove1 (t, c) (armed (core s)),
                                trace := trace (core s) @ [Timer_fired t st]\<rparr>\<rparr>))"
proof -
  let ?s0 = "s\<lparr>core := (core s)\<lparr>armed := remove1 (t, c) (armed (core s)),
                                trace := trace (core s) @ [Timer_fired t st]\<rparr>\<rparr>"
  let ?age = "\<lambda>tc :: timer_id \<times> closure_id. fst tc = Max_age_timer"
  from m have mem: "(t, c) \<in> set (armed (core s))" by (rule map_of_SomeD)
  with f have tc: "(t, c) = (Max_age_timer, Close_max_age_channel)
      \<or> (t, c) = (Max_age_grace_timer, Force_close_max_age_channel)"
    by (auto simp: fine_def iwired_iff)
  from mem have len: "length (remove1 (t, c) (armed (core s))) + 1 = length (armed (core s))"
    by (rule length_remove1_mem)
  have w: "iwired ?s0"
    using f set_remove1_subset [of "(t, c)" "armed (core s)"]
    by (auto simp: fine_def iwired_iff)
  have ch: "chain ?s0 + 1 \<le> 1"
  proof -
    from f have "chain s \<le> 1" by (simp add: fine_def)
    moreover from len have "chain ?s0 + 1 = chain s" by (simp add: chain_def)
    ultimately show ?thesis by linarith
  qed
  from f have F: "flagged s" by (simp add: fine_def)
  have fl: "flagged ?s0"
    unfolding flagged_iff
  proof (intro allI impI)
    fix t'
    assume "t' \<in> fst ` set (armed (core ?s0)) \<or> (\<exists>p \<in> set (threads ?s0). holder t' p)"
    with set_remove1_subset [of "(t, c)" "armed (core s)"]
    have "t' \<in> fst ` set (armed (core s)) \<or> (\<exists>p \<in> set (threads s). holder t' p)"
      by auto
    with F show "flag t' (cd (core ?s0))" unfolding flagged_iff by simp blast
  qed
  have h: "flag t' (cd (core ?s0))"
    if "holder t' (snd (run_closure c nd na (cd (core ?s0)) st))" for t'
  proof -
    from that tc have "t' = t" by (auto simp: holder_closure)
    moreover from mem have "t \<in> fst ` set (armed (core s))" by force
    ultimately show ?thesis using F by (simp add: flagged_iff)
  qed
  show ?thesis
  proof (cases t)
    case Max_age_timer
    with mem have "(t, c) \<in> set (filter ?age (armed (core s)))" by simp
    then have "length (remove1 (t, c) (filter ?age (armed (core s)))) + 1
               = length (filter ?age (armed (core s)))"
      by (rule length_remove1_mem)
    then have "length (filter ?age (remove1 (t, c) (armed (core s)))) + 1
               = length (filter ?age (armed (core s)))"
      by (simp add: filter_remove1)
    then have "age_chain ?s0 + 1 = age_chain s"
      by (simp add: age_chain_def)
    moreover from f have "age_chain s \<le> 1" by (simp add: fine_def)
    ultimately have a: "age_chain ?s0 + 1 \<le> 1" by linarith
    show ?thesis
      by (rule fine_spawn [where n = 1, OF w ch a closure_age_weight fl h])
  next
    case Max_age_grace_timer
    with tc have c: "c = Force_close_max_age_channel" by simp
    from Max_age_grace_timer have "(t, c) \<notin> set (filter ?age (armed (core s)))" by simp
    then have "filter ?age (remove1 (t, c) (armed (core s))) = filter ?age (armed (core s))"
      by (simp add: filter_remove1 remove1_idem)
    with f have a: "age_chain ?s0 + 0 \<le> 1"
      by (simp add: fine_def age_chain_def)
    have n: "length (filter age_hold_ev (snd (run_closure c nd na (cd (core ?s0)) st))) \<le> 0"
      using closure_age_weight_grace [of c] c by simp
    show ?thesis
      by (rule fine_spawn [where n = 0, OF w ch a n fl h])
  qed
qed

lemma fine_consumed:
  assumes f: "fine s" and i: "i < length (in_flight (core s))"
  shows "case on_consumed (in_flight (core s) ! i) of
           None \<Rightarrow> fine (s\<lparr>core := (core s)\<lparr>in_flight :=
                      take i (in_flight (core s)) @ drop (Suc i) (in_flight (core s))\<rparr>\<rparr>)
         | Some c \<Rightarrow> fine (spawn c e nd na (s\<lparr>core := (core s)\<lparr>in_flight :=
                      take i (in_flight (core s)) @ drop (Suc i) (in_flight (core s))\<rparr>\<rparr>))"
proof -
  let ?fl = "in_flight (core s)"
  let ?s0 = "s\<lparr>core := (core s)\<lparr>in_flight := take i ?fl @ drop (Suc i) ?fl\<rparr>\<rparr>"
  have sub: "set (take i ?fl @ drop (Suc i) ?fl) \<subseteq> set ?fl"
    by (auto dest: in_set_takeD in_set_dropD)
  note cnt = count_without_nth [OF i, of has_cont]
  from f have W: "set (exec_queue (core s)) \<subseteq> {(Start_max_age_timer_after_init, GRPC_ERROR_NONE)}"
    "set (armed (core s)) \<subseteq> {(Max_age_timer, Close_max_age_channel),
                               (Max_age_grace_timer, Force_close_max_age_channel)}"
    "on_consumed ` set ?fl \<subseteq> {None, Some Start_max_age_grace_timer_after_goaway_op}"
    "\<forall>p \<in> set (threads s). prog_ok p"
    by (simp_all add: fine_def iwired_iff)
  from sub have "on_consumed ` set (take i ?fl @ drop (Suc i) ?fl) \<subseteq> on_consumed ` set ?fl"
    by (rule image_mono)
  from this W(3)
  have "on_consumed ` set (take i ?fl @ drop (Suc i) ?fl)
          \<subseteq> {None, Some Start_max_age_grace_timer_after_goaway_op}"
    by (rule subset_trans)
  with W have w: "iwired ?s0" by (simp add: iwired_iff)
  from f have fl: "flagged ?s0" by (simp add: fine_def flagged_iff)
  from f have a: "age_chain ?s0 + 0 \<le> 1" by (simp add: fine_def age_chain_def)
  show ?thesis
  proof (cases "on_consumed (?fl ! i)")
    case None
    from cnt have "chain ?s0 \<le> chain s" by (simp add: chain_def split: if_splits)
    moreover from f have "chain s \<le> 1" by (simp add: fine_def)
    ultimately have "chain ?s0 \<le> 1" by linarith
    with w fl a None show ?thesis by (simp add: fine_def)
  next
    case (Some c)
    from i have "on_consumed (?fl ! i) \<in> on_consumed ` set ?fl" by simp
    with W(3) Some have c: "c = Start_max_age_grace_timer_after_goaway_op"
      by auto
    from Some have "has_cont (?fl ! i)" by (simp add: has_cont_def)
    with cnt have "chain ?s0 + 1 = chain s" by (simp add: chain_def)
    moreover from f have "chain s \<le> 1" by (simp add: fine_def)
    ultimately have ch: "chain ?s0 + 1 \<le> 1" by linarith
    have n: "length (filter age_hold_ev (snd (run_closure c nd na (cd (core ?s0)) e))) \<le> 0"
      using closure_age_weight_grace [of c] c by simp
    have "fine (spawn c e nd na ?s0)"
    proof (rule fine_spawn [where n = 0, OF w ch a n fl])
      show "flag t (cd (core ?s0))"
        if "holder t (snd (run_closure c nd na (cd (core ?s0)) e))" for t
        using that c by (simp add: holder_closure)
    qed
    with Some show ?thesis by simp
  qed
qed

lemma fine_enter:
  assumes f: "fine s" and d: "snd (destroy_channel_elem (cd (core s))) = e # rest"
  shows "fine ((emit e s)\<lparr>threads := threads s @ [rest], waiting := n\<rparr>)"
proof -
  from destroy_events_head [of "cd (core s)"] d have e: "e = Gpr_mu_lock" by auto
  from destroy_prog_ok [of "cd (core s)"] d have ok: "prog_ok rest"
    by (auto dest: prog_ok_tl)
  from destroy_weights [of "cd (core s)"] d
  have wt: "filter live_ev rest = []" "filter age_hold_ev rest = []"
    by (auto split: if_splits)
  have nh: "\<not> holder t rest" for t
    using holder_destroy [of t "cd (core s)"] holder_tl [of t rest e] d e by auto
  let ?s' = "(emit e s)\<lparr>threads := threads s @ [rest], waiting := n\<rparr>"
  from f have F: "iwired s" "chain s \<le> 1" "age_chain s \<le> 1" "flagged s"
    by (simp_all add: fine_def)
  from F(1) ok e have "iwired ?s'"
    by (simp add: iwired_iff emit_fields)
  moreover from wt e have "chain ?s' = chain s" "age_chain ?s' = age_chain s"
    by (simp_all add: chain_def age_chain_def emit_fields)
  moreover from F(4) nh e have "flagged ?s'"
    by (simp add: flagged_iff emit_fields)
  ultimately show ?thesis using F by (simp add: fine_def)
qed

lemma fine_step: "fine s \<Longrightarrow> istep a s = Some s' \<Longrightarrow> fine s'"
proof (cases a)
  case (IExec nd na)
  assume "fine s" "istep a s = Some s'"
  with IExec fine_exec show ?thesis
    by (auto split: list.splits)
next
  case (IFire t st nd na)
  assume "fine s" "istep a s = Some s'"
  with IFire fine_fire show ?thesis
    by (auto split: option.splits)
next
  case (IConsumed i e nd na)
  assume f: "fine s" and st: "istep a s = Some s'"
  with IConsumed have i: "i < length (in_flight (core s))" by (simp split: if_splits)
  from fine_consumed [OF f i, of e nd na] st IConsumed i show ?thesis
    by (auto split: option.splits)
next
  case ITeardown
  assume f: "fine s" and "istep a s = Some s'"
  with ITeardown
  have s': "s' = s\<lparr>core := (core s)\<lparr>trace := trace (core s) @ [Destroy_run]\<rparr>,
                     waiting := Suc (waiting s)\<rparr>"
    by simp
  have "iwired s' = iwired s" "chain s' = chain s" "age_chain s' = age_chain s"
    "flagged s' = flagged s"
    by (simp_all add: s' iwired_def chain_def age_chain_def flagged_def)
  with f show ?thesis by (simp add: fine_def)
next
  case IEnter
  assume "fine s" "istep a s = Some s'"
  with IEnter fine_enter show ?thesis
    by (auto split: if_splits list.splits)
next
  case (IAdvance k)
  assume "fine s" "istep a s = Some s'"
  with IAdvance fine_advance show ?thesis
    by (auto split: if_splits list.splits)
next
  case ICall_start
  assume "fine s" "istep a s = Some s'"
  with ICall_start show ?thesis by (auto simp: step_facts)
next
  case ICall_end
  assume "fine s" "istep a s = Some s'"
  with ICall_end show ?thesis by (auto simp: step_facts)
qed

lemma fine_run: "fine s \<Longrightarrow> irun acts s = Some s' \<Longrightarrow> fine s'"
proof (induction acts arbitrary: s)
  case Nil
  then show ?case by simp
next
  case (Cons a acts)
  then show ?case
    by (auto split: option.splits dest: fine_step)
qed

subsection \<open>After teardown\<close>

lemma cancel_iff_flag:
  "Grpc_timer_cancel t \<in> set (snd (destroy_channel_elem chand)) \<longleftrightarrow> flag t chand"
  by (cases t) (simp_all add: destroy_channel_elem_def)

lemma winding_iff:
  "winding chand1 s \<longleftrightarrow>
     exec_queue (core s) = []
     \<and> (\<forall>op \<in> set (in_flight (core s)). on_consumed op = None)
     \<and> (\<forall>tc \<in> set (armed (core s)).
           (tc = (Max_age_timer, Close_max_age_channel)
            \<or> tc = (Max_age_grace_timer, Force_close_max_age_channel))
           \<and> Grpc_timer_cancel (fst tc) \<in> set (snd (destroy_channel_elem chand1)))
     \<and> (\<forall>p \<in> set (threads s). \<forall>e \<in> set p. silent_ev e)"
  by (auto simp: winding_def filter_empty_conv has_cont_def)

lemma silent_effects:
  assumes "silent_ev e"
  shows "scheds e = []" and "arms e = []" and "sends e = []" and "\<not> is_transport_op e"
  using assms by (cases e; simp add: silent_ev_def)+

lemma closure_silent:
  assumes "c = Close_max_age_channel \<or> c = Force_close_max_age_channel"
    and "st \<noteq> GRPC_ERROR_NONE"
  shows "\<forall>e \<in> set (snd (run_closure c nd na chand st)). silent_ev e"
  using assms by (auto simp: step_facts silent_ev_def split: if_splits)

lemma destroy_silent: "\<forall>e \<in> set (snd (destroy_channel_elem chand)). silent_ev e"
  by (auto simp: destroy_channel_elem_def silent_ev_def)

lemma winding_step:
  assumes w: "winding chand1 s" and h: "honours_cancel chand1 a" and st: "istep a s = Some s'"
  shows "winding chand1 s'
     \<and> (\<exists>new. trace (core s') = trace (core s) @ new \<and> filter is_transport_op new = [])"
proof (cases a)
  case (IExec nd na)
  with w st show ?thesis by (simp add: winding_iff)
next
  case (IFire t status nd na)
  with st obtain c where m: "map_of (armed (core s)) t = Some c"
    and s': "s' = spawn c status nd na
               (s\<lparr>core := (core s)\<lparr>armed := remove1 (t, c) (armed (core s)),
                                    trace := trace (core s) @ [Timer_fired t status]\<rparr>\<rparr>)"
    by (auto split: option.splits)
  from m have mem: "(t, c) \<in> set (armed (core s))" by (rule map_of_SomeD)
  with w have c: "c = Close_max_age_channel \<or> c = Force_close_max_age_channel"
    and req: "Grpc_timer_cancel t \<in> set (snd (destroy_channel_elem chand1))"
    by (auto simp: winding_iff)
  from h IFire req have "status \<noteq> GRPC_ERROR_NONE" by simp
  from closure_silent [OF c this]
  have sil: "\<forall>e \<in> set (snd (run_closure c nd na (cd (core s)) status)). silent_ev e" .
  have "winding chand1 s'"
    using w sil set_remove1_subset [of "(t, c)" "armed (core s)"]
    unfolding s' winding_iff by (simp add: spawn_fields) blast
  moreover have "trace (core s') = trace (core s) @ [Timer_fired t status, Closure_run c status]"
    by (simp add: s' spawn_fields)
  ultimately show ?thesis by simp
next
  case (IConsumed i e nd na)
  with st have i: "i < length (in_flight (core s))" by (simp split: if_splits)
  then have "in_flight (core s) ! i \<in> set (in_flight (core s))" by simp
  with w have "on_consumed (in_flight (core s) ! i) = None" by (simp add: winding_iff)
  with st IConsumed i
  have s': "s' = s\<lparr>core := (core s)\<lparr>in_flight :=
                take i (in_flight (core s)) @ drop (Suc i) (in_flight (core s))\<rparr>\<rparr>"
    by simp
  have "winding chand1 s'"
    using w unfolding s' winding_iff
    by (auto dest: in_set_takeD in_set_dropD)
  with s' show ?thesis by simp
next
  case ITeardown
  with st have s': "s' = s\<lparr>core := (core s)\<lparr>trace := trace (core s) @ [Destroy_run]\<rparr>,
                         waiting := Suc (waiting s)\<rparr>"
    by simp
  have "winding chand1 s'"
    using w unfolding s' winding_iff by simp
  moreover have "trace (core s') = trace (core s) @ [Destroy_run]"
    by (simp add: s')
  ultimately show ?thesis by simp
next
  case IEnter
  with st obtain e rest where d: "snd (destroy_channel_elem (cd (core s))) = e # rest"
    and s': "s' = (emit e s)\<lparr>threads := threads s @ [rest], waiting := waiting s - 1\<rparr>"
    by (auto split: if_splits list.splits)
  from destroy_silent [of "cd (core s)"] d have sil: "silent_ev e" "\<forall>x \<in> set rest. silent_ev x"
    by simp_all
  have "winding chand1 s'"
    using w sil silent_effects [OF sil(1)] unfolding s' winding_iff
    by (simp add: emit_fields)
  moreover have "trace (core s') = trace (core s) @ [e]"
    by (simp add: s' emit_fields)
  ultimately show ?thesis using silent_effects(4) [OF sil(1)] by simp
next
  case (IAdvance k)
  with st obtain e rest where k: "k < length (threads s)" and p: "threads s ! k = e # rest"
    and s': "s' = (emit e s)\<lparr>threads := (threads s)[k := rest]\<rparr>"
    by (auto split: if_splits list.splits)
  from k p have "e # rest \<in> set (threads s)" by (metis nth_mem)
  with w have sil: "silent_ev e" "\<forall>x \<in> set rest. silent_ev x"
    by (auto simp: winding_iff)
  have "\<forall>q \<in> set ((threads s)[k := rest]). \<forall>x \<in> set q. silent_ev x"
    using w sil(2) set_update_subset_insert [of "threads s" k rest]
    by (auto simp: winding_iff)
  then have "winding chand1 s'"
    using w silent_effects [OF sil(1)] unfolding s' winding_iff
    by (simp add: emit_fields)
  moreover have "trace (core s') = trace (core s) @ [e]"
    by (simp add: s' emit_fields)
  ultimately show ?thesis using silent_effects(4) [OF sil(1)] by simp
next
  case ICall_start
  with w st show ?thesis by (auto simp: step_facts)
next
  case ICall_end
  with w st show ?thesis by (auto simp: step_facts)
qed

lemma winding_run:
  "winding chand1 s \<Longrightarrow> list_all (honours_cancel chand1) acts \<Longrightarrow> irun acts s = Some s' \<Longrightarrow>
   \<exists>new. trace (core s') = trace (core s) @ new \<and> filter is_transport_op new = []"
proof (induction acts arbitrary: s)
  case Nil
  then show ?case by simp
next
  case (Cons a acts)
  from Cons.prems(3) obtain s1 where st: "istep a s = Some s1" and r: "irun acts s1 = Some s'"
    by (auto split: option.splits)
  from Cons.prems(2) have h: "honours_cancel chand1 a" "list_all (honours_cancel chand1) acts"
    by simp_all
  from winding_step [OF Cons.prems(1) h(1) st] obtain new1
    where w1: "winding chand1 s1" and t1: "trace (core s1) = trace (core s) @ new1"
      "filter is_transport_op new1 = []"
    by blast
  from Cons.IH [OF w1 h(2) r] obtain new2
    where "trace (core s') = trace (core s1) @ new2" "filter is_transport_op new2 = []"
    by blast
  with t1 have "trace (core s') = trace (core s) @ (new1 @ new2)
      \<and> filter is_transport_op (new1 @ new2) = []"
    by simp
  then show ?case by blast
qed

lemma quiescent_winding:
  assumes f: "fine s1" and q: "quiescent s1"
  shows "winding (cd (core s1)) s1"
proof -
  from q have qq: "exec_queue (core s1) = []"
    "\<forall>p \<in> set (threads s1). \<forall>x \<in> set p. silent_ev x"
    "\<forall>op \<in> set (in_flight (core s1)). on_consumed op = None"
    by (auto simp: quiescent_def filter_empty_conv)
  from f have W: "set (armed (core s1)) \<subseteq> {(Max_age_timer, Close_max_age_channel),
                               (Max_age_grace_timer, Force_close_max_age_channel)}"
    and F: "flagged s1"
    by (simp_all add: fine_def iwired_iff)
  have req: "Grpc_timer_cancel (fst tc) \<in> set (snd (destroy_channel_elem (cd (core s1))))"
    if "tc \<in> set (armed (core s1))" for tc
  proof -
    from that have "fst tc \<in> fst ` set (armed (core s1))" by simp
    with F have "flag (fst tc) (cd (core s1))" unfolding flagged_iff by blast
    then show ?thesis by (simp add: cancel_iff_flag)
  qed
  show ?thesis
    unfolding winding_iff
  proof (intro conjI ballI)
    show "exec_queue (core s1) = []" by (rule qq(1))
  next
    fix op assume "op \<in> set (in_flight (core s1))"
    with qq(3) show "on_consumed op = None" by blast
  next
    fix tc assume "tc \<in> set (armed (core s1))"
    with W show "tc = (Max_age_timer, Close_max_age_channel)
        \<or> tc = (Max_age_grace_timer, Force_close_max_age_channel)"
      by blast
  next
    fix tc assume "tc \<in> set (armed (core s1))"
    then show "Grpc_timer_cancel (fst tc) \<in> set (snd (destroy_channel_elem (cd (core s1))))"
      by (rule req)
  next
    fix p x assume "p \<in> set (threads s1)" "x \<in> set p"
    with qq(2) show "silent_ev x" by blast
  qed
qed

text \<open>
  C7, as amended. The destructor locks the mutex, requests cancellation of the age timer
  exactly when \<open>max_age_timer_pending\<close> is set and of the grace timer exactly when
  \<open>max_age_grace_timer_pending\<close> is set, unlocks the mutex and does nothing else. In
  every interleaved execution, if the destructor is invoked when no callback of the filter
  is scheduled, awaited as a continuation, or running with something left to dispatch, arm
  or schedule, then every armed timer has its flag set, so that the destructor run on these
  channel data requests its cancellation; and if no timer whose flag is set at that moment
  delivers the Ok status afterwards, no transport operation is dispatched after the
  destructor is invoked.
\<close>

theorem C7_teardown_cancels_pending:
  "destroy_channel_elem chand =
     (chand,
      [Gpr_mu_lock]
      @ (if max_age_timer_pending chand then [Grpc_timer_cancel Max_age_timer] else [])
      @ (if max_age_grace_timer_pending chand then [Grpc_timer_cancel Max_age_grace_timer] else [])
      @ [Gpr_mu_unlock])
   \<and> (irun pre (iboot chand0 args) = Some s1 \<and> clean_teardown s1 post
        \<and> irun (ITeardown # post) s1 = Some s
      \<longrightarrow> (\<forall>tc \<in> set (armed (core s1)).
             Grpc_timer_cancel (fst tc) \<in> set (snd (destroy_channel_elem (cd (core s1)))))
          \<and> (\<exists>new. trace (core s) = trace (core s1) @ Destroy_run # new
                 \<and> filter is_transport_op new = []))"
proof (intro conjI impI)
  show "destroy_channel_elem chand =
     (chand,
      [Gpr_mu_lock]
      @ (if max_age_timer_pending chand then [Grpc_timer_cancel Max_age_timer] else [])
      @ (if max_age_grace_timer_pending chand then [Grpc_timer_cancel Max_age_grace_timer] else [])
      @ [Gpr_mu_unlock])"
    by (simp add: destroy_channel_elem_def)
next
  assume a: "irun pre (iboot chand0 args) = Some s1 \<and> clean_teardown s1 post
        \<and> irun (ITeardown # post) s1 = Some s"
  then have f: "fine s1" using fine_run [OF fine_boot] by blast
  from a have q: "quiescent s1" and h: "list_all (honours_cancel (cd (core s1))) post"
    by (simp_all add: clean_teardown_def)
  from a obtain s2 where st: "istep ITeardown s1 = Some s2" and r: "irun post s2 = Some s"
    by (auto split: option.splits)
  note w = quiescent_winding [OF f q]
  from w show "\<forall>tc \<in> set (armed (core s1)).
      Grpc_timer_cancel (fst tc) \<in> set (snd (destroy_channel_elem (cd (core s1))))"
    by (simp add: winding_iff)
  have h1: "honours_cancel (cd (core s1)) ITeardown" by simp
  from winding_step [OF w h1 st] have w2: "winding (cd (core s1)) s2" by blast
  from st have t2: "trace (core s2) = trace (core s1) @ [Destroy_run]" by auto
  from winding_run [OF w2 h r] obtain new
    where "trace (core s) = trace (core s2) @ new" "filter is_transport_op new = []"
    by blast
  with t2 have "trace (core s) = trace (core s1) @ Destroy_run # new
      \<and> filter is_transport_op new = []"
    by simp
  then show "\<exists>new. trace (core s) = trace (core s1) @ Destroy_run # new
      \<and> filter is_transport_op new = []"
    by blast
qed

lemma pre_run_ready:
  "map_option (\<lambda>s1. clean_teardown s1 post_run) (irun pre_run (iboot chand_5s sample_args))
   = Some True"
  by code_simp

lemma whole_run_runs:
  "Option.bind (irun pre_run (iboot chand_5s sample_args)) (irun (ITeardown # post_run)) \<noteq> None"
  by code_simp

lemma pre_run_armed:
  "map_option (\<lambda>s. (armed (core s), filter (\<lambda>e. e = Grpc_timer_cancel Max_age_timer) (trace (core s))))
     (irun pre_run (iboot chand_5s sample_args)) = Some ([(Max_age_timer, Close_max_age_channel)], [])"
  by code_simp

lemma whole_run_requests:
  "map_option (\<lambda>s. filter (\<lambda>e. e = Grpc_timer_cancel Max_age_timer) (trace (core s)))
     (Option.bind (irun pre_run (iboot chand_5s sample_args)) (irun (ITeardown # post_run)))
   = Some [Grpc_timer_cancel Max_age_timer]"
  by code_simp

theorem C7_teardown_cancels_pending_witness:
  "\<exists>s1 s. irun pre_run (iboot chand_5s sample_args) = Some s1
     \<and> clean_teardown s1 post_run
     \<and> irun (ITeardown # post_run) s1 = Some s
     \<and> armed (core s1) = [(Max_age_timer, Close_max_age_channel)]
     \<and> Grpc_timer_cancel Max_age_timer \<in> set (snd (destroy_channel_elem (cd (core s1))))
     \<and> filter (\<lambda>e. e = Grpc_timer_cancel Max_age_timer) (trace (core s))
         = [Grpc_timer_cancel Max_age_timer]
     \<and> (\<exists>new. trace (core s) = trace (core s1) @ Destroy_run # new
            \<and> filter is_transport_op new = [])"
proof -
  from whole_run_runs obtain s1
    where r1: "irun pre_run (iboot chand_5s sample_args) = Some s1"
      and "irun (ITeardown # post_run) s1 \<noteq> None"
    by (cases "irun pre_run (iboot chand_5s sample_args)") simp_all
  then obtain s where r2: "irun (ITeardown # post_run) s1 = Some s"
    by blast
  from pre_run_ready have c: "clean_teardown s1 post_run"
    unfolding r1 by simp
  from pre_run_armed have a: "armed (core s1) = [(Max_age_timer, Close_max_age_channel)]"
    unfolding r1 by simp
  from C7_teardown_cancels_pending [of chand_5s pre_run chand_5s sample_args s1 post_run s] r1 r2 c
  have concl: "(\<forall>tc \<in> set (armed (core s1)).
             Grpc_timer_cancel (fst tc) \<in> set (snd (destroy_channel_elem (cd (core s1)))))
          \<and> (\<exists>new. trace (core s) = trace (core s1) @ Destroy_run # new
                 \<and> filter is_transport_op new = [])"
    by blast
  then have "Grpc_timer_cancel Max_age_timer \<in> set (snd (destroy_channel_elem (cd (core s1))))"
    unfolding a by simp
  moreover from whole_run_requests
  have "filter (\<lambda>e. e = Grpc_timer_cancel Max_age_timer) (trace (core s))
        = [Grpc_timer_cancel Max_age_timer]"
    unfolding r1 bind.bind_lunit r2 by simp
  ultimately show ?thesis using r1 r2 c a concl by blast
qed

text \<open>
  Each condition is needed. When the teardown comes while the age-timer callback is between
  unlocking and dispatching, while the continuation of the goaway operation is awaited, or
  while the start closure is still scheduled, the timers honour every cancellation request
  and one operation is dispatched after the teardown all the same; so it is when the
  teardown finds nothing outstanding and the timer it cancels delivers Ok; in the clean run
  no operation is dispatched.
\<close>

lemma callback_running_at_teardown:
  "teardown_outcome mid_pre mid_post = Some (False, True, Some 1)"
  by code_simp

lemma continuation_awaited_at_teardown:
  "teardown_outcome awaited_pre awaited_post = Some (False, True, Some 1)"
  by code_simp

lemma closure_scheduled_at_teardown:
  "teardown_outcome [] scheduled_post = Some (False, True, Some 1)"
  by code_simp

lemma cancelled_timer_delivers_ok:
  "teardown_outcome pre_run race_post = Some (True, False, Some 1)"
  by code_simp

lemma clean_outcome:
  "teardown_outcome pre_run post_run = Some (True, True, Some 0)"
  by code_simp

text \<open>
  C7 as stated fails: the age timer is armed, the destructor requests its cancellation, the
  timer delivers the Ok status all the same (it had already been dequeued for firing), and
  the age-timer callback dispatches the goaway operation, after the teardown.
\<close>

theorem C7_teardown_cancels_pending_counterexample:
  "map_option (ops_after_destroy \<circ> trace) (run race_run (boot chand_5s sample_args)) = Some 1"
  by code_simp

end
